theory Spec2Isabelle
  imports Complex_Main "HOL-Library.Stream" "HOL-Library.Signed_Division"
begin

section \<open>Data model (maze.go)\<close>

text \<open>
  Go's \<open>int\<close> is modelled by \<open>int\<close>. Every arithmetic operation of the package works on
  grid coordinates and dimensions: on a value that was compared with the maze bounds, or
  adds one or two to such a value, so no operation wraps around on a 64-bit machine.
  Go's \<open>/\<close> and \<open>%\<close> truncate towards zero: they are \<open>sdiv\<close> and \<open>smod\<close>.
\<close>

datatype Cell = Wall | Path | Start | End | SolutionPath

record Point =
  X :: int
  Y :: int

record Maze =
  width :: int
  height :: int
  grid :: "Cell list list"
  start :: Point
  endp :: Point
  door :: Point
  denWidth :: int
  denHeight :: int
  denStartX :: int
  denStartY :: int

text \<open>The errors the package returns, one constructor per \<open>fmt.Errorf\<close> site.\<close>

datatype error =
    ErrDimensions
  | ErrDenNegative
  | ErrDenWidth
  | ErrDenHeight
  | ErrStartPoint
  | ErrStartInDen
  | ErrDoorSide
  | ErrDoorEdge
  | ErrDoorConnect
  | ErrDoorWall
  | ErrDoorNoConnection
  | ErrNoPath

text \<open>The zero value of \<open>Point\<close>: what a Go map returns for a missing key.\<close>

definition zeroPoint :: Point where
  "zeroPoint = \<lparr>X = 0, Y = 0\<rparr>"

text \<open>The direction list \<open>{0,-1}, {0,1}, {-1,0}, {1,0}\<close> of every search loop.\<close>

definition dirs4 :: "Point list" where
  "dirs4 = [\<lparr>X = 0, Y = - 1\<rparr>, \<lparr>X = 0, Y = 1\<rparr>, \<lparr>X = - 1, Y = 0\<rparr>, \<lparr>X = 1, Y = 0\<rparr>]"

text \<open>
  Reading and writing \<open>m.grid[y][x]\<close>. An index outside the slices panics in Go:
  the result is \<open>None\<close>.
\<close>

definition inGrid :: "Cell list list \<Rightarrow> Point \<Rightarrow> bool" where
  "inGrid g p = (0 \<le> Y p \<and> nat (Y p) < length g \<and> 0 \<le> X p \<and> nat (X p) < length (g ! nat (Y p)))"

definition getCell :: "Maze \<Rightarrow> Point \<Rightarrow> Cell option" where
  "getCell m p = (if inGrid (grid m) p then Some (grid m ! nat (Y p) ! nat (X p)) else None)"

definition setCell :: "Maze \<Rightarrow> Point \<Rightarrow> Cell \<Rightarrow> Maze option" where
  "setCell m p c =
     (if inGrid (grid m) p
      then Some (m\<lparr>grid := (grid m)[nat (Y p) := (grid m ! nat (Y p))[nat (X p) := c]]\<rparr>)
      else None)"

definition adjustToOdd :: "int \<Rightarrow> int" where
  "adjustToOdd d = (if d > 0 \<and> d smod 2 = 0 then d + 1 else d)"

definition validateAndAdjustDimensions ::
  "int \<Rightarrow> int \<Rightarrow> int \<Rightarrow> int \<Rightarrow> error + (int \<times> int \<times> int \<times> int)" where
  "validateAndAdjustDimensions w h dw dh =
     (if w \<le> 0 \<or> h \<le> 0 then Inl ErrDimensions
      else if dw < 0 \<or> dh < 0 then Inl ErrDenNegative
      else
        let adjWidth = adjustToOdd w;
            adjHeight = adjustToOdd h;
            adjDenWidth = adjustToOdd dw;
            adjDenHeight = adjustToOdd dh
        in if adjDenWidth > 0 \<and> adjDenWidth \<ge> adjWidth - 2 then Inl ErrDenWidth
           else if adjDenHeight > 0 \<and> adjDenHeight \<ge> adjHeight - 2 then Inl ErrDenHeight
           else Inr (adjWidth, adjHeight, adjDenWidth, adjDenHeight))"

definition calculateDenPosition :: "int \<Rightarrow> int \<Rightarrow> int \<Rightarrow> int \<Rightarrow> int \<times> int" where
  "calculateDenPosition w dw h dh =
     (let denStartX0 = (w - dw) sdiv 2;
          denStartY0 = (h - dh) sdiv 2;
          denStartX1 = (if denStartX0 > 0 \<and> denStartX0 smod 2 = 0 then denStartX0 - 1 else denStartX0);
          denStartY1 = (if denStartY0 > 0 \<and> denStartY0 smod 2 = 0 then denStartY0 - 1 else denStartY0)
      in (denStartX1, denStartY1))"

definition IsInsideDen :: "Maze \<Rightarrow> Point \<Rightarrow> bool" where
  "IsInsideDen m p =
     (if denWidth m \<le> 0 \<or> denHeight m \<le> 0 then False
      else X p \<ge> denStartX m \<and> X p < denStartX m + denWidth m \<and>
           Y p \<ge> denStartY m \<and> Y p < denStartY m + denHeight m)"

definition IsAdjacentToDen :: "Maze \<Rightarrow> Point \<Rightarrow> bool" where
  "IsAdjacentToDen m p =
     (if denWidth m \<le> 0 \<or> denHeight m \<le> 0 then False
      else if IsInsideDen m p then False
      else list_ex (\<lambda>dir. IsInsideDen m \<lparr>X = X p + X dir, Y = Y p + Y dir\<rparr>) dirs4)"

text \<open>
  \<open>initializeGrid\<close>: \<open>height\<close> rows of \<open>width\<close> cells, the den pre-carved to \<open>Path\<close>.
\<close>

definition initializeGrid :: "Maze \<Rightarrow> Maze" where
  "initializeGrid m =
     m\<lparr>grid := map (\<lambda>i. map (\<lambda>j. if IsInsideDen m \<lparr>X = int j, Y = int i\<rparr> then Path else Wall)
                              [0 ..< nat (width m)])
                 [0 ..< nat (height m)]\<rparr>"

definition New :: "int \<Rightarrow> int \<Rightarrow> int \<Rightarrow> int \<Rightarrow> error + Maze" where
  "New w h dw dh =
     (case validateAndAdjustDimensions w h dw dh of
        Inl err \<Rightarrow> Inl err
      | Inr (adjWidth, adjHeight, adjDenWidth, adjDenHeight) \<Rightarrow>
          let m0 = \<lparr>width = adjWidth, height = adjHeight, grid = [],
                    start = zeroPoint, endp = zeroPoint, door = zeroPoint,
                    denWidth = adjDenWidth, denHeight = adjDenHeight,
                    denStartX = 0, denStartY = 0\<rparr>;
              m1 = (if denWidth m0 > 0 \<and> denHeight m0 > 0
                    then (let (sx, sy) = calculateDenPosition (width m0) (denWidth m0) (height m0) (denHeight m0)
                          in m0\<lparr>denStartX := sx, denStartY := sy\<rparr>)
                    else m0)
          in Inr (initializeGrid m1))"

section \<open>Solving (solve.go)\<close>

text \<open>
  The inner loop of \<open>Solve\<close> over the four directions. The \<open>visited\<close> array has
  \<open>height\<close> rows of \<open>width\<close> flags, and is only indexed after the bounds test on
  \<open>next\<close>: it is the set of the points whose flag is set.
\<close>

fun solveNeighbors ::
  "Maze \<Rightarrow> Point \<Rightarrow> Point list \<Rightarrow> Point list \<Rightarrow> Point set \<Rightarrow> (Point \<rightharpoonup> Point)
     \<Rightarrow> (Point list \<times> Point set \<times> (Point \<rightharpoonup> Point)) option" where
  "solveNeighbors m current [] queue visited parent = Some (queue, visited, parent)"
| "solveNeighbors m current (dir # dirs) queue visited parent =
     (let next = \<lparr>X = X current + X dir, Y = Y current + Y dir\<rparr> in
      if X next < 0 \<or> X next \<ge> width m \<or> Y next < 0 \<or> Y next \<ge> height m
      then solveNeighbors m current dirs queue visited parent
      else (case getCell m next of
              None \<Rightarrow> None
            | Some cell \<Rightarrow>
                if cell \<noteq> Wall \<and> next \<notin> visited
                then solveNeighbors m current dirs (queue @ [next]) (insert next visited)
                       (parent(next \<mapsto> current))
                else solveNeighbors m current dirs queue visited parent))"

text \<open>
  The points inside the bounds test of \<open>Solve\<close>: the index set of the \<open>visited\<close>
  array. It is finite, which bounds the search.
\<close>

definition box :: "Maze \<Rightarrow> Point set" where
  "box m = {p. 0 \<le> X p \<and> X p < width m \<and> 0 \<le> Y p \<and> Y p < height m}"

lemma finite_box: "finite (box m)"
proof -
  have "box m \<subseteq> (\<lambda>(x, y). \<lparr>X = x, Y = y\<rparr>) ` ({0 ..< width m} \<times> {0 ..< height m})"
  proof
    fix p assume "p \<in> box m"
    then have "(X p, Y p) \<in> {0 ..< width m} \<times> {0 ..< height m}" by (simp add: box_def)
    moreover have "p = (\<lambda>(x, y). \<lparr>X = x, Y = y\<rparr>) (X p, Y p)" by simp
    ultimately show "p \<in> (\<lambda>(x, y). \<lparr>X = x, Y = y\<rparr>) ` ({0 ..< width m} \<times> {0 ..< height m})"
      by (rule rev_image_eqI)
  qed
  then show ?thesis by (rule finite_subset) simp
qed

lemma solveNeighbors_measure:
  "solveNeighbors m c ds q v par = Some (q', v', par') \<Longrightarrow>
     card (box m - v') + length q' = card (box m - v) + length q \<and> length q \<le> length q'"
proof (induction ds arbitrary: q v par)
  case Nil
  then show ?case by simp
next
  case (Cons d ds)
  let ?n = "\<lparr>X = X c + X d, Y = Y c + Y d\<rparr>"
  show ?case
  proof (cases "X ?n < 0 \<or> X ?n \<ge> width m \<or> Y ?n < 0 \<or> Y ?n \<ge> height m")
    case True
    with Cons.prems have "solveNeighbors m c ds q v par = Some (q', v', par')" by simp
    then show ?thesis by (rule Cons.IH)
  next
    case inb: False
    then have nb: "?n \<in> box m" by (simp add: box_def)
    from inb Cons.prems obtain cell where gc: "getCell m ?n = Some cell"
      by (cases "getCell m ?n") (simp_all add: Let_def)
    show ?thesis
    proof (cases "cell \<noteq> Wall \<and> ?n \<notin> v")
      case True
      with inb gc Cons.prems
      have "solveNeighbors m c ds (q @ [?n]) (insert ?n v) (par(?n \<mapsto> c)) = Some (q', v', par')"
        by (simp add: Let_def)
      from Cons.IH[OF this]
      have ih: "card (box m - v') + length q' = card (box m - insert ?n v) + length (q @ [?n])"
        and le: "length (q @ [?n]) \<le> length q'" by simp_all
      have "?n \<in> box m - v" using nb True by simp
      then have "card (box m - v) = Suc (card (box m - insert ?n v))"
        using finite_box[of m]
        by (metis Diff_insert card.remove finite_Diff)
      with ih le show ?thesis by simp
    next
      case False
      with inb gc Cons.prems have "solveNeighbors m c ds q v par = Some (q', v', par')"
        by (auto simp add: Let_def)
      then show ?thesis by (rule Cons.IH)
    qed
  qed
qed

text \<open>
  The search loop of \<open>Solve\<close>. It returns \<open>pathFound\<close> and the final queue, head,
  visited set and parent map.
\<close>

function solveLoop ::
  "Maze \<Rightarrow> Point list \<Rightarrow> nat \<Rightarrow> Point set \<Rightarrow> (Point \<rightharpoonup> Point)
     \<Rightarrow> (bool \<times> Point list \<times> nat \<times> Point set \<times> (Point \<rightharpoonup> Point)) option" where
  "solveLoop m queue head visited parent =
     (if head < length queue then
        let current = queue ! head; head' = head + 1 in
        if current = endp m then Some (True, queue, head', visited, parent)
        else (case solveNeighbors m current dirs4 queue visited parent of
                None \<Rightarrow> None
              | Some (queue', visited', parent') \<Rightarrow> solveLoop m queue' head' visited' parent')
      else Some (False, queue, head, visited, parent))"
  by pat_completeness auto
termination
proof (relation "measure (\<lambda>(m, queue, head, visited, parent).
          2 * card (box m - visited) + (length queue - head))")
  show "wf (measure (\<lambda>(m, queue, head, visited, parent).
          2 * card (box m - visited) + (length queue - head)))" by simp
next
  fix m :: Maze and queue head visited and parent :: "Point \<rightharpoonup> Point" and x xa x2 x1 x2a x1a x2b
  assume h: "head < length queue" and "x = queue ! head" and xa: "xa = head + 1"
    and s: "solveNeighbors m x dirs4 queue visited parent = Some x2"
    and "(x1, x2a) = x2" and "(x1a, x2b) = x2a"
  then have "solveNeighbors m x dirs4 queue visited parent = Some (x1, x1a, x2b)" by simp
  from solveNeighbors_measure[OF this] h xa
  show "((m, x1, xa, x1a, x2b), m, queue, head, visited, parent)
       \<in> measure (\<lambda>(m, queue, head, visited, parent).
          2 * card (box m - visited) + (length queue - head))"
    by (simp del: One_nat_def) linarith
qed

declare solveLoop.simps [simp del]

text \<open>\<open>parent[p]\<close>: a missing key reads as the zero point.\<close>

definition lookupParent :: "(Point \<rightharpoonup> Point) \<Rightarrow> Point \<Rightarrow> Point" where
  "lookupParent parent p = (case parent p of None \<Rightarrow> zeroPoint | Some q \<Rightarrow> q)"

text \<open>
  The reconstruction loop of solve.go: append \<open>p\<close>, stop at the start, else follow
  \<open>parent\<close>. Nothing in the loop bounds it, so not returning is \<open>None\<close>.
\<close>

partial_function (option) walkBack ::
  "(Point \<rightharpoonup> Point) \<Rightarrow> Point \<Rightarrow> Point \<Rightarrow> Point list \<Rightarrow> Point list option" where
  "walkBack parent st p fullPath =
     (let fullPath' = fullPath @ [p] in
      if p = st then Some fullPath' else walkBack parent st (lookupParent parent p) fullPath')"

text \<open>The in-place reversal \<open>for i, j := 0, len(fullPath)-1; i < j; i, j = i+1, j-1\<close>.\<close>

function reverseLoop :: "int \<Rightarrow> int \<Rightarrow> Point list \<Rightarrow> Point list" where
  "reverseLoop i j fullPath =
     (if i < j
      then reverseLoop (i + 1) (j - 1)
             (fullPath[nat i := fullPath ! nat j, nat j := fullPath ! nat i])
      else fullPath)"
  by pat_completeness auto
termination
  by (relation "measure (\<lambda>(i, j, fullPath). nat (j - i))") auto

declare reverseLoop.simps [simp del]

text \<open>
  \<open>Solve\<close> of solve.go. \<open>visited[m.start.Y][m.start.X] = true\<close> panics when the start is
  outside the \<open>height\<close> by \<open>width\<close> array (also when \<open>make\<close> gets a negative size).
  The result \<open>None\<close> is a call that does not return: a panic or an unbounded loop.
  A nil slice is the empty list.
\<close>

definition Solve :: "Maze \<Rightarrow> (Point list \<times> bool) option" where
  "Solve m =
     (if \<not> (0 \<le> Y (start m) \<and> Y (start m) < height m \<and> 0 \<le> X (start m) \<and> X (start m) < width m)
      then None
      else (case solveLoop m [start m] 0 {start m} Map.empty of
              None \<Rightarrow> None
            | Some (pathFound, queue, head, visited, parent) \<Rightarrow>
                if pathFound
                then (case walkBack parent (start m) (endp m) [] of
                        None \<Rightarrow> None
                      | Some fullPath \<Rightarrow>
                          Some (reverseLoop 0 (int (length fullPath) - 1) fullPath, True))
                else Some ([], False)))"

text \<open>
  The second \<open>Solve\<close> (the file with the pre-allocated slice): the same search, then the
  length is counted along the parent pointers and the slice is filled from the back.
\<close>

partial_function (option) countBack ::
  "(Point \<rightharpoonup> Point) \<Rightarrow> Point \<Rightarrow> Point \<Rightarrow> int \<Rightarrow> int option" where
  "countBack parent st p pathLen =
     (if p \<noteq> st then countBack parent st (lookupParent parent p) (pathLen + 1)
      else Some pathLen)"

function fillBack :: "(Point \<rightharpoonup> Point) \<Rightarrow> int \<Rightarrow> Point \<Rightarrow> Point list \<Rightarrow> Point list" where
  "fillBack parent i p fullPath =
     (if i \<ge> 0
      then (let fullPath' = fullPath[nat i := p];
                p' = (if i > 0 then lookupParent parent p else p)
            in fillBack parent (i - 1) p' fullPath')
      else fullPath)"
  by pat_completeness auto
termination
  by (relation "measure (\<lambda>(parent, i, p, fullPath). nat (i + 1))") auto

declare fillBack.simps [simp del]

declare walkBack.simps [code]
declare countBack.simps [code]

definition Solve_prealloc :: "Maze \<Rightarrow> (Point list \<times> bool) option" where
  "Solve_prealloc m =
     (if \<not> (0 \<le> Y (start m) \<and> Y (start m) < height m \<and> 0 \<le> X (start m) \<and> X (start m) < width m)
      then None
      else (case solveLoop m [start m] 0 {start m} Map.empty of
              None \<Rightarrow> None
            | Some (pathFound, queue, head, visited, parent) \<Rightarrow>
                if pathFound
                then (case countBack parent (start m) (endp m) 1 of
                        None \<Rightarrow> None
                      | Some pathLen \<Rightarrow>
                          Some (fillBack parent (pathLen - 1) (endp m)
                                  (replicate (nat pathLen) zeroPoint), True))
                else Some ([], False)))"

section \<open>Generation (generate.go)\<close>

text \<open>
  The random source is \<open>math/rand\<close>, a library outside the package. Its generator is a
  stream of raw draws: \<open>Intn n\<close> panics for \<open>n \<le> 0\<close> and otherwise returns a value in
  \<open>[0, n)\<close>, \<open>Float64\<close> returns a multiple of \<open>2\<^sup>-\<^sup>5\<^sup>3\<close> in \<open>[0, 1)\<close>, and each call
  advances the generator. Every sequence of results the library can return is the
  result of some stream. \<open>rand.NewSource\<close> is a parameter of \<open>Generate\<close>: a function
  from the seed to the stream. The bias is a rational number.
\<close>

type_synonym rand = "nat stream"

definition Intn :: "rand \<Rightarrow> int \<Rightarrow> (int \<times> rand) option" where
  "Intn r n = (if n \<le> 0 then None else Some (int (shd r) mod n, stl r))"

definition Float64 :: "rand \<Rightarrow> rat \<times> rand" where
  "Float64 r = (rat_of_nat (shd r mod 2 ^ 53) / 2 ^ 53, stl r)"

definition dirs2 :: "Point list" where
  "dirs2 = [\<lparr>X = 0, Y = - 2\<rparr>, \<lparr>X = 0, Y = 2\<rparr>, \<lparr>X = - 2, Y = 0\<rparr>, \<lparr>X = 2, Y = 0\<rparr>]"

fun findValidNeighborsLoop :: "Maze \<Rightarrow> Point \<Rightarrow> Point list \<Rightarrow> Point list \<Rightarrow> Point list option" where
  "findValidNeighborsLoop m p [] neighbors = Some neighbors"
| "findValidNeighborsLoop m p (dir # dirs) neighbors =
     (let next = \<lparr>X = X p + X dir, Y = Y p + Y dir\<rparr> in
      if X next > 0 \<and> X next < width m - 1 \<and> Y next > 0 \<and> Y next < height m - 1
      then (case getCell m next of
              None \<Rightarrow> None
            | Some cell \<Rightarrow>
                if cell = Wall
                then (let wallBetween = \<lparr>X = X p + X dir sdiv 2, Y = Y p + Y dir sdiv 2\<rparr> in
                      if IsInsideDen m wallBetween \<or> IsAdjacentToDen m next
                      then findValidNeighborsLoop m p dirs neighbors
                      else findValidNeighborsLoop m p dirs (neighbors @ [next]))
                else findValidNeighborsLoop m p dirs neighbors)
      else findValidNeighborsLoop m p dirs neighbors)"

definition findValidNeighbors :: "Maze \<Rightarrow> Point \<Rightarrow> Point list option" where
  "findValidNeighbors m p = findValidNeighborsLoop m p dirs2 []"

text \<open>\<open>neighbors[r.Intn(len(neighbors))]\<close>.\<close>

definition pickNeighbor :: "Point list \<Rightarrow> rand \<Rightarrow> (Point \<times> rand) option" where
  "pickNeighbor neighbors r =
     (case Intn r (int (length neighbors)) of
        None \<Rightarrow> None
      | Some (i, r') \<Rightarrow> Some (neighbors ! nat i, r'))"

definition chooseBiasedNeighbor ::
  "Point list \<Rightarrow> Point list \<Rightarrow> rat \<Rightarrow> rand \<Rightarrow> (Point \<times> rand) option" where
  "chooseBiasedNeighbor neighbors stack bias r =
     (if neighbors \<noteq> [] \<and> stack = [] then None
      else
        let lastDirection =
              (if length stack > 1
               then (let previous = stack ! (length stack - 2);
                         current = stack ! (length stack - 1)
                     in \<lparr>X = X current - X previous, Y = Y current - Y previous\<rparr>)
               else zeroPoint);
            current = stack ! (length stack - 1);
            straightOption =
              find (\<lambda>n. X n - X current = X lastDirection \<and> Y n - Y current = Y lastDirection)
                neighbors
        in (case straightOption of
              Some s \<Rightarrow>
                (let (f, r') = Float64 r in
                 if f < bias then Some (s, r') else pickNeighbor neighbors r')
            | None \<Rightarrow> pickNeighbor neighbors r))"

text \<open>The number of \<open>Wall\<close> cells of a grid: what bounds the carving loop.\<close>

definition wallCount :: "Cell list list \<Rightarrow> nat" where
  "wallCount g = sum_list (map (\<lambda>row. sum_list (map (\<lambda>c. if c = Wall then 1 else 0) row)) g)"

lemma sum_list_update_le:
  fixes xs :: "nat list"
  shows "k < length xs \<Longrightarrow> x \<le> xs ! k \<Longrightarrow> sum_list (xs[k := x]) + (xs ! k - x) = sum_list xs"
proof -
  assume k: "k < length xs" and x: "x \<le> xs ! k"
  have "xs ! k \<le> sum_list xs" using k by (simp add: member_le_sum_list)
  with x show ?thesis by (simp add: sum_list_update[OF k])
qed

lemma wallCount_setCell:
  assumes "setCell m p c = Some m'" and "c \<noteq> Wall"
  shows "wallCount (grid m') + (if getCell m p = Some Wall then 1 else 0) = wallCount (grid m)"
proof -
  let ?g = "grid m" and ?w = "\<lambda>c. if c = Wall then 1 else (0::nat)"
  let ?i = "nat (Y p)" and ?j = "nat (X p)"
  from assms(1) have ig: "inGrid ?g p"
    and g': "grid m' = ?g[?i := (?g ! ?i)[?j := c]]"
    by (auto simp add: setCell_def split: if_splits)
  then have i: "?i < length ?g" and j: "?j < length (?g ! ?i)" by (simp_all add: inGrid_def)
  define row where "row = map ?w (?g ! ?i)"
  define rows where "rows = map (\<lambda>row. sum_list (map ?w row)) ?g"
  define a where "a = sum_list (row[?j := ?w c])"
  define d :: nat where "d = (if getCell m p = Some Wall then 1 else 0)"
  have rj: "row ! ?j - ?w c = d"
    using ig j assms(2) by (simp add: getCell_def row_def d_def)
  have "a + (row ! ?j - ?w c) = sum_list row"
    unfolding a_def using j assms(2) by (intro sum_list_update_le) (simp_all add: row_def)
  with rj have ad: "a + d = sum_list row" by simp
  have ri: "rows ! ?i = sum_list row" using i by (simp add: rows_def row_def)
  have "sum_list (rows[?i := a]) + (rows ! ?i - a) = sum_list rows"
    using i ad ri by (intro sum_list_update_le) (simp_all add: rows_def)
  with ri ad have "sum_list (rows[?i := a]) + d = sum_list rows" by simp
  moreover have "wallCount (grid m') = sum_list (rows[?i := a])"
    by (simp add: wallCount_def g' map_update rows_def a_def row_def)
  moreover have "wallCount (grid m) = sum_list rows"
    by (simp add: wallCount_def rows_def)
  ultimately show ?thesis by (simp add: d_def)
qed

lemma getCell_setCell:
  "setCell m p c = Some m' \<Longrightarrow> getCell m' q = (if q = p then Some c else getCell m q)"
proof -
  assume s: "setCell m p c = Some m'"
  then have ig: "inGrid (grid m) p"
    and g': "grid m' = (grid m)[nat (Y p) := (grid m ! nat (Y p))[nat (X p) := c]]"
    by (auto simp add: setCell_def split: if_splits)
  have same: "inGrid (grid m') q = inGrid (grid m) q"
    using ig by (auto simp add: inGrid_def g' nth_list_update)
  show ?thesis
  proof (cases "q = p")
    case True
    with ig same show ?thesis by (simp add: getCell_def g' inGrid_def)
  next
    case False
    then have "nat (Y q) \<noteq> nat (Y p) \<or> nat (X q) \<noteq> nat (X p) \<or> \<not> inGrid (grid m) q"
      using ig by (cases p, cases q) (auto simp add: inGrid_def)
    then show ?thesis using same ig
      by (auto simp add: getCell_def g' inGrid_def nth_list_update)
  qed
qed

lemma findValidNeighborsLoop_props:
  "findValidNeighborsLoop m p ds acc = Some ns \<Longrightarrow> n \<in> set ns \<Longrightarrow> n \<notin> set acc \<Longrightarrow>
     getCell m n = Some Wall \<and> (\<exists>d \<in> set ds. n = \<lparr>X = X p + X d, Y = Y p + Y d\<rparr>)"
proof (induction ds arbitrary: acc)
  case Nil
  then show ?case by simp
next
  case (Cons d ds)
  let ?next = "\<lparr>X = X p + X d, Y = Y p + Y d\<rparr>"
  from Cons.prems(1) consider
      (skip) "findValidNeighborsLoop m p ds acc = Some ns"
    | (add) "getCell m ?next = Some Wall" "findValidNeighborsLoop m p ds (acc @ [?next]) = Some ns"
    by (auto simp add: Let_def split: if_splits option.splits)
  then show ?case
  proof cases
    case skip
    from Cons.IH[OF skip Cons.prems(2,3)] show ?thesis by auto
  next
    case add
    show ?thesis
    proof (cases "n = ?next")
      case True
      with add(1) show ?thesis by auto
    next
      case False
      with Cons.prems(3) have "n \<notin> set (acc @ [?next])" by simp
      from Cons.IH[OF add(2) Cons.prems(2) this] show ?thesis by auto
    qed
  qed
qed

lemma pickNeighbor_mem: "pickNeighbor ns r = Some (n, r') \<Longrightarrow> n \<in> set ns"
proof -
  assume a: "pickNeighbor ns r = Some (n, r')"
  then have len: "0 < length ns" and n: "n = ns ! nat (int (shd r) mod int (length ns))"
    by (auto simp add: pickNeighbor_def Intn_def split: if_splits)
  have "nat (int (shd r) mod int (length ns)) < length ns"
    using len by (simp add: nat_less_iff)
  with n show ?thesis by simp
qed

lemma chooseBiasedNeighbor_mem:
  "chooseBiasedNeighbor ns stack bias r = Some (n, r') \<Longrightarrow> n \<in> set ns"
  by (auto simp add: chooseBiasedNeighbor_def Let_def
      split: if_splits option.splits prod.splits dest: pickNeighbor_mem simp add: find_Some_iff)


lemma dirs2_half_ne:
  "d \<in> set dirs2 \<Longrightarrow>
     \<lparr>X = X p + (X p + X d - X p) sdiv 2, Y = Y p + (Y p + Y d - Y p) sdiv 2\<rparr>
       \<noteq> \<lparr>X = X p + X d, Y = Y p + Y d\<rparr>"
  by (auto simp add: dirs2_def signed_divide_int_def)

text \<open>The loop of \<open>runDFS\<close>: the top of the stack is its last element.\<close>

function runDFSLoop :: "Maze \<Rightarrow> Point list \<Rightarrow> rat \<Rightarrow> rand \<Rightarrow> (Maze \<times> rand) option" where
  "runDFSLoop m stack bias r =
     (if length stack > 0 then
        let current = stack ! (length stack - 1) in
        (case findValidNeighbors m current of
           None \<Rightarrow> None
         | Some neighbors \<Rightarrow>
             if length neighbors > 0 then
               (case chooseBiasedNeighbor neighbors stack bias r of
                  None \<Rightarrow> None
                | Some (next, r') \<Rightarrow>
                    let wallToRemove = \<lparr>X = X current + (X next - X current) sdiv 2,
                                        Y = Y current + (Y next - Y current) sdiv 2\<rparr>
                    in (case setCell m wallToRemove Path of
                          None \<Rightarrow> None
                        | Some m1 \<Rightarrow>
                            (case setCell m1 next Path of
                               None \<Rightarrow> None
                             | Some m2 \<Rightarrow> runDFSLoop m2 (stack @ [next]) bias r')))
             else runDFSLoop m (butlast stack) bias r)
      else Some (m, r))"
  by pat_completeness auto
termination
proof (relation "measures [\<lambda>(m, stack, bias, r). wallCount (grid m),
                           \<lambda>(m, stack, bias, r). length stack]")
  show "wf (measures [\<lambda>(m, stack, bias, r). wallCount (grid m),
                      \<lambda>(m, stack, bias, r). length stack])" by simp
next
  fix m :: Maze and stack :: "Point list" and bias :: rat and r :: rand
    and current neighbors x2 nxt r' wallToRemove m1 m2
  assume cur: "current = stack ! (length stack - 1)"
    and fv: "findValidNeighbors m current = Some neighbors"
    and ch: "chooseBiasedNeighbor neighbors stack bias r = Some x2" and x2: "(nxt, r') = x2"
    and w: "wallToRemove = \<lparr>X = X current + (X nxt - X current) sdiv 2,
                             Y = Y current + (Y nxt - Y current) sdiv 2\<rparr>"
    and s1: "setCell m wallToRemove Path = Some m1" and s2: "setCell m1 nxt Path = Some m2"
  from ch x2 have "nxt \<in> set neighbors" by (auto dest: chooseBiasedNeighbor_mem)
  from findValidNeighborsLoop_props[OF fv[unfolded findValidNeighbors_def] this]
  obtain d where wall: "getCell m nxt = Some Wall" and d: "d \<in> set dirs2"
    and nx: "nxt = \<lparr>X = X current + X d, Y = Y current + Y d\<rparr>" by auto
  have ne: "nxt \<noteq> wallToRemove"
    using dirs2_half_ne[OF d, of current] by (auto simp add: w nx)
  have "getCell m1 nxt = Some Wall"
    using getCell_setCell[OF s1, of "nxt"] ne wall by simp
  with wallCount_setCell[OF s2] have "wallCount (grid m2) < wallCount (grid m1)" by simp
  moreover from wallCount_setCell[OF s1] have "wallCount (grid m1) \<le> wallCount (grid m)" by simp
  ultimately show "((m2, stack @ [nxt], bias, r'), m, stack, bias, r)
       \<in> measures [\<lambda>(m, stack, bias, r). wallCount (grid m),
                    \<lambda>(m, stack, bias, r). length stack]"
    by simp
next
  fix m :: Maze and stack :: "Point list" and bias :: rat and r :: rand and current neighbors
  assume "0 < length stack"
  then show "((m, butlast stack, bias, r), m, stack, bias, r)
       \<in> measures [\<lambda>(m, stack, bias, r). wallCount (grid m),
                    \<lambda>(m, stack, bias, r). length stack]"
    by simp
qed

declare runDFSLoop.simps [simp del]

definition runDFS :: "Maze \<Rightarrow> rand \<Rightarrow> Point \<Rightarrow> rat \<Rightarrow> (Maze \<times> rand) option" where
  "runDFS m r st bias =
     (case setCell m st Path of
        None \<Rightarrow> None
      | Some m1 \<Rightarrow> runDFSLoop m1 [st] bias r)"

text \<open>
  \<open>carvePathToNearest\<close>: the search through \<open>Wall\<close> cells. The inner loop returns the
  target when a neighbour is a \<open>Path\<close> cell (\<open>break head_loop\<close>).
\<close>

fun carveNeighbors ::
  "Maze \<Rightarrow> Point \<Rightarrow> Point list \<Rightarrow> Point list \<Rightarrow> Point set \<Rightarrow> (Point \<rightharpoonup> Point)
     \<Rightarrow> (Point option \<times> Point list \<times> Point set \<times> (Point \<rightharpoonup> Point)) option" where
  "carveNeighbors m current [] queue visited parent = Some (None, queue, visited, parent)"
| "carveNeighbors m current (dir # dirs) queue visited parent =
     (let next = \<lparr>X = X current + X dir, Y = Y current + Y dir\<rparr> in
      if X next \<le> 0 \<or> X next \<ge> width m - 1 \<or> Y next \<le> 0 \<or> Y next \<ge> height m - 1
      then carveNeighbors m current dirs queue visited parent
      else (case getCell m next of
              None \<Rightarrow> None
            | Some cell \<Rightarrow>
                if cell = Path then Some (Some next, queue, visited, parent(next \<mapsto> current))
                else if cell = Wall \<and> next \<notin> visited
                then carveNeighbors m current dirs (queue @ [next]) (insert next visited)
                       (parent(next \<mapsto> current))
                else carveNeighbors m current dirs queue visited parent))"

lemma carveNeighbors_measure:
  "carveNeighbors m c ds q v par = Some (None, q', v', par') \<Longrightarrow>
     card (box m - v') + length q' = card (box m - v) + length q \<and> length q \<le> length q'"
proof (induction ds arbitrary: q v par)
  case Nil
  then show ?case by simp
next
  case (Cons d ds)
  let ?n = "\<lparr>X = X c + X d, Y = Y c + Y d\<rparr>"
  from Cons.prems consider
      (skip) "carveNeighbors m c ds q v par = Some (None, q', v', par')"
    | (add) "?n \<in> box m" "?n \<notin> v"
        "carveNeighbors m c ds (q @ [?n]) (insert ?n v) (par(?n \<mapsto> c)) = Some (None, q', v', par')"
    by (auto simp add: Let_def box_def split: if_splits option.splits)
  then show ?case
  proof cases
    case skip
    then show ?thesis by (rule Cons.IH)
  next
    case add
    from Cons.IH[OF add(3)]
    have ih: "card (box m - v') + length q' = card (box m - insert ?n v) + length (q @ [?n])"
      and le: "length (q @ [?n]) \<le> length q'" by simp_all
    have "?n \<in> box m - v" using add by simp
    then have "card (box m - v) = Suc (card (box m - insert ?n v))"
      using finite_box[of m]
      by (metis Diff_insert card.remove finite_Diff)
    with ih le show ?thesis by simp
  qed
qed

function carveLoop ::
  "Maze \<Rightarrow> Point list \<Rightarrow> nat \<Rightarrow> Point set \<Rightarrow> (Point \<rightharpoonup> Point)
     \<Rightarrow> (Point option \<times> (Point \<rightharpoonup> Point)) option" where
  "carveLoop m queue head visited parent =
     (if head < length queue then
        let current = queue ! head; head' = head + 1 in
        (case carveNeighbors m current dirs4 queue visited parent of
           None \<Rightarrow> None
         | Some (Some targetPath, queue', visited', parent') \<Rightarrow> Some (Some targetPath, parent')
         | Some (None, queue', visited', parent') \<Rightarrow> carveLoop m queue' head' visited' parent')
      else Some (None, parent))"
  by pat_completeness auto
termination
proof (relation "measure (\<lambda>(m, queue, head, visited, parent).
          2 * card (box m - visited) + (length queue - head))")
  show "wf (measure (\<lambda>(m, queue, head, visited, parent).
          2 * card (box m - visited) + (length queue - head)))" by simp
next
  fix m :: Maze and queue head visited and parent :: "Point \<rightharpoonup> Point"
    and x xa x2 x1 x2a x1a x2b x1b x2c
  assume h: "head < length queue" and "x = queue ! head" and xa: "xa = head + 1"
    and s: "carveNeighbors m x dirs4 queue visited parent = Some x2"
    and "(x1, x2a) = x2" and "x1 = None" and "(x1a, x2b) = x2a" and "(x1b, x2c) = x2b"
  then have "carveNeighbors m x dirs4 queue visited parent = Some (None, x1a, x1b, x2c)" by simp
  from carveNeighbors_measure[OF this] h xa
  show "((m, x1a, xa, x1b, x2c), m, queue, head, visited, parent)
       \<in> measure (\<lambda>(m, queue, head, visited, parent).
          2 * card (box m - visited) + (length queue - head))"
    by (simp del: One_nat_def) linarith
qed

declare carveLoop.simps [simp del]

text \<open>
  The carving walk back along the parent pointers. Nothing in the loop bounds it:
  \<open>None\<close> is a walk that does not return (or a write outside the grid).
\<close>

partial_function (option) carveBack ::
  "(Point \<rightharpoonup> Point) \<Rightarrow> Point \<Rightarrow> Point \<Rightarrow> Maze \<Rightarrow> Maze option" where
  "carveBack parent st p m =
     (if p \<noteq> st
      then (let p' = lookupParent parent p in
            case setCell m p' Path of
              None \<Rightarrow> None
            | Some m' \<Rightarrow> carveBack parent st p' m')
      else Some m)"

declare carveBack.simps [code]

text \<open>
  A method that returns an \<open>error\<close> gives the maze it leaves behind and the error
  (\<open>None\<close> for \<open>nil\<close>); the outer \<open>None\<close> is a call that does not return.
\<close>

definition carvePathToNearest :: "Maze \<Rightarrow> Point \<Rightarrow> (Maze \<times> error option) option" where
  "carvePathToNearest m st =
     (case carveLoop m [st] 0 {st} Map.empty of
        None \<Rightarrow> None
      | Some (None, parent) \<Rightarrow> Some (m, Some ErrNoPath)
      | Some (Some targetPath, parent) \<Rightarrow>
          (case carveBack parent st targetPath m of
             None \<Rightarrow> None
           | Some m' \<Rightarrow> Some (m', None)))"

text \<open>The \<open>switch\<close> of \<open>connectDenAtSide\<close>: the door and its outward neighbour.\<close>

definition sideDoor :: "Maze \<Rightarrow> string \<Rightarrow> (Point \<times> Point) option" where
  "sideDoor m doorSide =
     (if doorSide = ''top'' then
        (let d = \<lparr>X = denStartX m + denWidth m sdiv 2, Y = denStartY m - 1\<rparr>
         in Some (d, \<lparr>X = X d, Y = Y d - 1\<rparr>))
      else if doorSide = ''bottom'' then
        (let d = \<lparr>X = denStartX m + denWidth m sdiv 2, Y = denStartY m + denHeight m\<rparr>
         in Some (d, \<lparr>X = X d, Y = Y d + 1\<rparr>))
      else if doorSide = ''left'' then
        (let d = \<lparr>X = denStartX m - 1, Y = denStartY m + denHeight m sdiv 2\<rparr>
         in Some (d, \<lparr>X = X d - 1, Y = Y d\<rparr>))
      else if doorSide = ''right'' then
        (let d = \<lparr>X = denStartX m + denWidth m, Y = denStartY m + denHeight m sdiv 2\<rparr>
         in Some (d, \<lparr>X = X d + 1, Y = Y d\<rparr>))
      else None)"

text \<open>Opening the door: \<open>m.grid[door.Y][door.X] = Path; m.door = door\<close>.\<close>

definition openDoor :: "Maze \<Rightarrow> Point \<Rightarrow> (Maze \<times> error option) option" where
  "openDoor m d =
     (case setCell m d Path of
        None \<Rightarrow> None
      | Some m' \<Rightarrow> Some (m'\<lparr>door := d\<rparr>, None))"

definition connectDenAtSide :: "Maze \<Rightarrow> string \<Rightarrow> (Maze \<times> error option) option" where
  "connectDenAtSide m doorSide =
     (case sideDoor m doorSide of
        None \<Rightarrow> Some (m, Some ErrDoorSide)
      | Some (d, neighbor) \<Rightarrow>
          if X d \<le> 0 \<or> X d \<ge> width m - 1 \<or> Y d \<le> 0 \<or> Y d \<ge> height m - 1 \<or>
             X neighbor \<le> 0 \<or> X neighbor \<ge> width m - 1 \<or>
             Y neighbor \<le> 0 \<or> Y neighbor \<ge> height m - 1
          then Some (m, Some ErrDoorEdge)
          else (case getCell m neighbor of
                  None \<Rightarrow> None
                | Some cell \<Rightarrow>
                    if cell = Path then openDoor m d
                    else (case carvePathToNearest m neighbor of
                            None \<Rightarrow> None
                          | Some (m', Some err) \<Rightarrow> Some (m', Some ErrDoorConnect)
                          | Some (m', None) \<Rightarrow> openDoor m' d)))"

text \<open>
  \<open>m.grid[p1.Y][p1.X] == Path && m.grid[p2.Y][p2.X] == Path\<close>: the second cell is read
  only when the first is a \<open>Path\<close>.
\<close>

definition bothPath :: "Maze \<Rightarrow> Point \<Rightarrow> Point \<Rightarrow> bool option" where
  "bothPath m p1 p2 =
     (case getCell m p1 of
        None \<Rightarrow> None
      | Some c1 \<Rightarrow>
          if c1 \<noteq> Path then Some False
          else (case getCell m p2 of None \<Rightarrow> None | Some c2 \<Rightarrow> Some (c2 = Path)))"

text \<open>
  The test both door searches make on a \<open>Wall\<close> cell: a horizontal, then a vertical
  pair of \<open>Path\<close> neighbours with exactly one of the two inside the den.
\<close>

definition separatesDen :: "Maze \<Rightarrow> Point \<Rightarrow> bool option" where
  "separatesDen m p =
     (let p1_h = \<lparr>X = X p - 1, Y = Y p\<rparr>; p2_h = \<lparr>X = X p + 1, Y = Y p\<rparr> in
      case bothPath m p1_h p2_h of
        None \<Rightarrow> None
      | Some h \<Rightarrow>
          if h \<and> IsInsideDen m p1_h \<noteq> IsInsideDen m p2_h then Some True
          else (let p1_v = \<lparr>X = X p, Y = Y p - 1\<rparr>; p2_v = \<lparr>X = X p, Y = Y p + 1\<rparr> in
                case bothPath m p1_v p2_v of
                  None \<Rightarrow> None
                | Some v \<Rightarrow> Some (v \<and> IsInsideDen m p1_v \<noteq> IsInsideDen m p2_v)))"

definition connectDenAtPoint :: "Maze \<Rightarrow> Point \<Rightarrow> (Maze \<times> error option) option" where
  "connectDenAtPoint m userDoor =
     (if X userDoor \<le> 0 \<or> X userDoor \<ge> width m - 1 \<or> Y userDoor \<le> 0 \<or> Y userDoor \<ge> height m - 1
      then Some (m, Some ErrDoorWall)
      else (case getCell m userDoor of
              None \<Rightarrow> None
            | Some cell \<Rightarrow>
                if cell \<noteq> Wall then Some (m, Some ErrDoorWall)
                else (case separatesDen m userDoor of
                        None \<Rightarrow> None
                      | Some True \<Rightarrow> openDoor m userDoor
                      | Some False \<Rightarrow> Some (m, Some ErrDoorNoConnection))))"

text \<open>The scan of \<open>connectRandomDenDoor\<close>, row by row, over the interior cells.\<close>

fun scanRow :: "Maze \<Rightarrow> int \<Rightarrow> int list \<Rightarrow> Point list \<Rightarrow> Point list option" where
  "scanRow m y [] potentialDoors = Some potentialDoors"
| "scanRow m y (x # xs) potentialDoors =
     (case getCell m \<lparr>X = x, Y = y\<rparr> of
        None \<Rightarrow> None
      | Some cell \<Rightarrow>
          if cell \<noteq> Wall then scanRow m y xs potentialDoors
          else (case separatesDen m \<lparr>X = x, Y = y\<rparr> of
                  None \<Rightarrow> None
                | Some True \<Rightarrow> scanRow m y xs (potentialDoors @ [\<lparr>X = x, Y = y\<rparr>])
                | Some False \<Rightarrow> scanRow m y xs potentialDoors))"

fun scanGrid :: "Maze \<Rightarrow> int list \<Rightarrow> Point list \<Rightarrow> Point list option" where
  "scanGrid m [] potentialDoors = Some potentialDoors"
| "scanGrid m (y # ys) potentialDoors =
     (case scanRow m y [1 .. width m - 2] potentialDoors of
        None \<Rightarrow> None
      | Some potentialDoors' \<Rightarrow> scanGrid m ys potentialDoors')"

definition connectRandomDenDoor :: "Maze \<Rightarrow> rand \<Rightarrow> (Maze \<times> error option) option" where
  "connectRandomDenDoor m r =
     (case scanGrid m [1 .. height m - 2] [] of
        None \<Rightarrow> None
      | Some potentialDoors \<Rightarrow>
          if length potentialDoors > 0
          then (case Intn r (int (length potentialDoors)) of
                  None \<Rightarrow> None
                | Some (i, r') \<Rightarrow> openDoor m (potentialDoors ! nat i))
          else Some (m, None))"

definition connectDen ::
  "Maze \<Rightarrow> rand \<Rightarrow> Point option \<Rightarrow> string \<Rightarrow> (Maze \<times> error option) option" where
  "connectDen m r userDoor doorSide =
     (if denWidth m \<le> 0 \<or> denHeight m \<le> 0 then Some (m, None)
      else if doorSide \<noteq> [] then connectDenAtSide m doorSide
      else (case userDoor of
              Some d \<Rightarrow> connectDenAtPoint m d
            | None \<Rightarrow> connectRandomDenDoor m r))"

text \<open>\<open>distances[p]\<close>: a missing key reads as zero.\<close>

definition lookupDist :: "(Point \<rightharpoonup> int) \<Rightarrow> Point \<Rightarrow> int" where
  "lookupDist distances p = (case distances p of None \<Rightarrow> 0 | Some d \<Rightarrow> d)"

text \<open>
  The inner loop of \<open>findFarthestPoint\<close>. The state is the queue, the distance map
  (whose keys are the visited points), the farthest point and the maximum distance.
\<close>

fun farNeighbors ::
  "Maze \<Rightarrow> Point \<Rightarrow> Point list \<Rightarrow> Point list \<Rightarrow> (Point \<rightharpoonup> int) \<Rightarrow> Point \<Rightarrow> int
     \<Rightarrow> (Point list \<times> (Point \<rightharpoonup> int) \<times> Point \<times> int) option" where
  "farNeighbors m current [] queue distances farthestPoint maxDistance =
     Some (queue, distances, farthestPoint, maxDistance)"
| "farNeighbors m current (dir # dirs) queue distances farthestPoint maxDistance =
     (let next = \<lparr>X = X current + X dir, Y = Y current + Y dir\<rparr> in
      if X next > 0 \<and> X next < width m - 1 \<and> Y next > 0 \<and> Y next < height m - 1
      then (case getCell m next of
              None \<Rightarrow> None
            | Some cell \<Rightarrow>
                if cell \<noteq> Wall \<and> distances next = None
                then (let dist = lookupDist distances current + 1;
                          distances' = distances(next \<mapsto> dist);
                          queue' = queue @ [next]
                      in if dist > maxDistance \<and> \<not> IsInsideDen m next \<and> \<not> IsAdjacentToDen m next
                         then farNeighbors m current dirs queue' distances' next dist
                         else farNeighbors m current dirs queue' distances' farthestPoint maxDistance)
                else farNeighbors m current dirs queue distances farthestPoint maxDistance)
      else farNeighbors m current dirs queue distances farthestPoint maxDistance)"

lemma farNeighbors_measure:
  "farNeighbors m c ds q dm fp md = Some (q', dm', fp', md') \<Longrightarrow>
     card (box m - dom dm') + length q' = card (box m - dom dm) + length q \<and> length q \<le> length q'"
proof (induction ds arbitrary: q dm fp md)
  case Nil
  then show ?case by simp
next
  case (Cons d ds)
  let ?n = "\<lparr>X = X c + X d, Y = Y c + Y d\<rparr>"
  from Cons.prems consider
      (skip) "farNeighbors m c ds q dm fp md = Some (q', dm', fp', md')"
    | (add) fp1 md1 where "?n \<in> box m" "?n \<notin> dom dm"
        "farNeighbors m c ds (q @ [?n]) (dm(?n \<mapsto> lookupDist dm c + 1)) fp1 md1
           = Some (q', dm', fp', md')"
    by (auto simp add: Let_def box_def split: if_splits option.splits)
  then show ?case
  proof cases
    case skip
    then show ?thesis by (rule Cons.IH)
  next
    case add
    have "dom (dm(?n \<mapsto> lookupDist dm c + 1)) = insert ?n (dom dm)"
      by (simp only: dom_fun_upd option.simps if_False)
    with Cons.IH[OF add(3)]
    have ih: "card (box m - dom dm') + length q' =
                card (box m - insert ?n (dom dm)) + length (q @ [?n])"
      and le: "length (q @ [?n]) \<le> length q'" by (simp_all only:)
    have "?n \<in> box m - dom dm" using add by simp
    then have "card (box m - dom dm) = Suc (card (box m - insert ?n (dom dm)))"
      using finite_box[of m]
      by (metis Diff_insert card.remove finite_Diff)
    with ih le show ?thesis by simp
  qed
qed

function farLoop ::
  "Maze \<Rightarrow> Point list \<Rightarrow> nat \<Rightarrow> (Point \<rightharpoonup> int) \<Rightarrow> Point \<Rightarrow> int
     \<Rightarrow> (Point list \<times> (Point \<rightharpoonup> int) \<times> Point \<times> int) option" where
  "farLoop m queue head distances farthestPoint maxDistance =
     (if head < length queue then
        let current = queue ! head; head' = head + 1 in
        (case farNeighbors m current dirs4 queue distances farthestPoint maxDistance of
           None \<Rightarrow> None
         | Some (queue', distances', farthestPoint', maxDistance') \<Rightarrow>
             farLoop m queue' head' distances' farthestPoint' maxDistance')
      else Some (queue, distances, farthestPoint, maxDistance))"
  by pat_completeness auto
termination
proof (relation "measure (\<lambda>(m, queue, head, distances, farthestPoint, maxDistance).
          2 * card (box m - dom distances) + (length queue - head))")
  show "wf (measure (\<lambda>(m, queue, head, distances, farthestPoint, maxDistance).
          2 * card (box m - dom distances) + (length queue - head)))" by simp
next
  fix m :: Maze and queue head and distances :: "Point \<rightharpoonup> int" and farthestPoint :: Point
    and maxDistance :: int and x xa x2 x1 x2a x1a x2b x1b x2c
  assume h: "head < length queue" and "x = queue ! head" and xa: "xa = head + 1"
    and s: "farNeighbors m x dirs4 queue distances farthestPoint maxDistance = Some x2"
    and "(x1, x2a) = x2" and "(x1a, x2b) = x2a" and "(x1b, x2c) = x2b"
  then have "farNeighbors m x dirs4 queue distances farthestPoint maxDistance
               = Some (x1, x1a, x1b, x2c)" by simp
  from farNeighbors_measure[OF this] h xa
  show "((m, x1, xa, x1a, x1b, x2c), m, queue, head, distances, farthestPoint, maxDistance)
       \<in> measure (\<lambda>(m, queue, head, distances, farthestPoint, maxDistance).
          2 * card (box m - dom distances) + (length queue - head))"
    by (simp del: One_nat_def) linarith
qed

declare farLoop.simps [simp del]

definition findFarthestPoint :: "Maze \<Rightarrow> Point \<Rightarrow> (Point \<times> int) option" where
  "findFarthestPoint m st =
     (case farLoop m [st] 0 [st \<mapsto> 0] st 0 of
        None \<Rightarrow> None
      | Some (queue, distances, farthestPoint, maxDistance) \<Rightarrow> Some (farthestPoint, maxDistance))"

definition placeStartAndEnd :: "Maze \<Rightarrow> Point \<Rightarrow> bool \<Rightarrow> Maze option" where
  "placeStartAndEnd m generationStart useProvidedStart =
     (case (if useProvidedStart then Some generationStart
            else map_option fst (findFarthestPoint m generationStart)) of
        None \<Rightarrow> None
      | Some s \<Rightarrow>
          let m1 = m\<lparr>start := s\<rparr> in
          (case findFarthestPoint m1 (start m1) of
             None \<Rightarrow> None
           | Some (e, d) \<Rightarrow>
               let m2 = m1\<lparr>endp := e\<rparr> in
               (case setCell m2 (start m2) Start of
                  None \<Rightarrow> None
                | Some m3 \<Rightarrow> setCell m3 (endp m3) End)))"

text \<open>
  The loop of \<open>Generate\<close> that draws a start outside the den. Nothing bounds it: not
  returning is \<open>None\<close>, as is the panic of \<open>Intn\<close> on a maze one cell wide or high.
\<close>

partial_function (option) randomStart :: "Maze \<Rightarrow> rand \<Rightarrow> (Point \<times> rand) option" where
  "randomStart m r =
     (case Intn r ((width m - 1) sdiv 2) of
        None \<Rightarrow> None
      | Some (a, r1) \<Rightarrow>
          (case Intn r1 ((height m - 1) sdiv 2) of
             None \<Rightarrow> None
           | Some (b, r2) \<Rightarrow>
               let p = \<lparr>X = a * 2 + 1, Y = b * 2 + 1\<rparr> in
               if \<not> IsInsideDen m p then Some (p, r2) else randomStart m r2))"

declare randomStart.simps [code]

text \<open>
  \<open>Generate\<close>. The first argument stands for \<open>rand.NewSource\<close>. The result is the maze
  the call leaves behind and the error it returns.
\<close>

definition Generate ::
  "(int \<Rightarrow> rand) \<Rightarrow> Maze \<Rightarrow> int \<Rightarrow> Point option \<Rightarrow> Point option \<Rightarrow> string \<Rightarrow> rat
     \<Rightarrow> (Maze \<times> error option) option" where
  "Generate NewSource m seed userStart userDoor doorSide bias =
     (let r = NewSource seed in
      case (case userStart of
              Some s \<Rightarrow>
                if X s \<le> 0 \<or> X s \<ge> width m - 1 \<or> Y s \<le> 0 \<or> Y s \<ge> height m - 1 \<or>
                   X s smod 2 = 0 \<or> Y s smod 2 = 0
                then Some (Inl ErrStartPoint)
                else if IsInsideDen m s then Some (Inl ErrStartInDen)
                else Some (Inr (s, r))
            | None \<Rightarrow> map_option Inr (randomStart m r)) of
        None \<Rightarrow> None
      | Some (Inl err) \<Rightarrow> Some (m, Some err)
      | Some (Inr (generationStart, r1)) \<Rightarrow>
          (case runDFS m r1 generationStart bias of
             None \<Rightarrow> None
           | Some (m1, r2) \<Rightarrow>
               (case connectDen m1 r2 userDoor doorSide of
                  None \<Rightarrow> None
                | Some (m2, Some err) \<Rightarrow> Some (m2, Some err)
                | Some (m2, None) \<Rightarrow>
                    (case placeStartAndEnd m2 generationStart (userStart \<noteq> None) of
                       None \<Rightarrow> None
                     | Some m3 \<Rightarrow> Some (m3, None)))))"

section \<open>Properties of construction\<close>

lemma smod2_pos: "0 < (d::int) \<Longrightarrow> (d smod 2 = 0) = even d"
  by (auto simp add: signed_modulo_int_def sgn_if)

lemma adjustToOdd_eq: "0 < d \<Longrightarrow> adjustToOdd d = (if even d then d + 1 else d)"
  by (simp add: adjustToOdd_def smod2_pos)

lemma adjustToOdd_zero: "adjustToOdd 0 = 0"
  by (simp add: adjustToOdd_def)

lemma New_Inr_fields:
  "New w h dw dh = Inr m \<Longrightarrow>
     width m = adjustToOdd w \<and> height m = adjustToOdd h \<and>
     denWidth m = adjustToOdd dw \<and> denHeight m = adjustToOdd dh \<and>
     0 < w \<and> 0 < h \<and> 0 \<le> dw \<and> 0 \<le> dh"
  by (auto simp add: New_def validateAndAdjustDimensions_def initializeGrid_def Let_def
      split: if_splits prod.splits)

text \<open>
  C3. \<open>New\<close> returns an error exactly when the width or the height is not positive, a
  den dimension is negative, or a positive den dimension, made odd, is at least the
  maze dimension, made odd, minus two. On success the stored width and height are the
  inputs with an even value incremented by one, and are odd.
\<close>

theorem New_error_iff:
  "((\<exists>e. New w h dw dh = Inl e) =
      (w \<le> 0 \<or> h \<le> 0 \<or> dw < 0 \<or> dh < 0 \<or>
       (0 < dw \<and> (if even dw then dw + 1 else dw) \<ge> (if even w then w + 1 else w) - 2) \<or>
       (0 < dh \<and> (if even dh then dh + 1 else dh) \<ge> (if even h then h + 1 else h) - 2))) \<and>
   (\<forall>m. New w h dw dh = Inr m \<longrightarrow>
      width m = (if even w then w + 1 else w) \<and> height m = (if even h then h + 1 else h) \<and>
      odd (width m) \<and> odd (height m))"
proof (intro conjI allI impI)
  show "(\<exists>e. New w h dw dh = Inl e) =
      (w \<le> 0 \<or> h \<le> 0 \<or> dw < 0 \<or> dh < 0 \<or>
       (0 < dw \<and> (if even dw then dw + 1 else dw) \<ge> (if even w then w + 1 else w) - 2) \<or>
       (0 < dh \<and> (if even dh then dh + 1 else dh) \<ge> (if even h then h + 1 else h) - 2))"
  proof (cases "w \<le> 0 \<or> h \<le> 0 \<or> dw < 0 \<or> dh < 0")
    case True
    then show ?thesis
      by (auto simp add: New_def validateAndAdjustDimensions_def)
  next
    case False
    then have pos: "0 < w" "0 < h" "0 \<le> dw" "0 \<le> dh" by auto
    have aw: "adjustToOdd w = (if even w then w + 1 else w)"
      and ah: "adjustToOdd h = (if even h then h + 1 else h)"
      using pos by (simp_all add: adjustToOdd_eq)
    have dw: "(0 < adjustToOdd dw \<and> adjustToOdd dw \<ge> adjustToOdd w - 2) =
              (0 < dw \<and> (if even dw then dw + 1 else dw) \<ge> (if even w then w + 1 else w) - 2)"
      using pos aw by (cases "dw = 0") (simp_all add: adjustToOdd_zero adjustToOdd_eq)
    have dh: "(0 < adjustToOdd dh \<and> adjustToOdd dh \<ge> adjustToOdd h - 2) =
              (0 < dh \<and> (if even dh then dh + 1 else dh) \<ge> (if even h then h + 1 else h) - 2)"
      using pos ah by (cases "dh = 0") (simp_all add: adjustToOdd_zero adjustToOdd_eq)
    have "(\<exists>e. New w h dw dh = Inl e) =
            ((0 < adjustToOdd dw \<and> adjustToOdd dw \<ge> adjustToOdd w - 2) \<or>
             (0 < adjustToOdd dh \<and> adjustToOdd dh \<ge> adjustToOdd h - 2))"
      using pos by (auto simp add: New_def validateAndAdjustDimensions_def Let_def)
    with dw dh False show ?thesis by simp
  qed
next
  fix m assume n: "New w h dw dh = Inr m"
  from New_Inr_fields[OF n]
  have f: "width m = adjustToOdd w" "height m = adjustToOdd h" "0 < w" "0 < h"
    by simp_all
  then show "width m = (if even w then w + 1 else w)" "height m = (if even h then h + 1 else h)"
    by (simp_all add: adjustToOdd_eq)
  then show "odd (width m)" "odd (height m)" by simp_all
qed

text \<open>
  A 21 by 21 maze with a den 19 wide is refused (19 is the width minus two); the
  request 40, 20, 10, 6 of the package's tests is stored as 41 by 21.
\<close>

theorem New_error_iff_witness:
  "(\<exists>e. New 21 21 19 5 = Inl e) \<and> (\<exists>m. New 40 20 10 6 = Inr m \<and> width m = 41 \<and> height m = 21)"
proof
  show "\<exists>e. New 21 21 19 5 = Inl e" using New_error_iff[of 21 21 19 5] by simp
next
  obtain m where m: "New 40 20 10 6 = Inr m"
    by (simp add: New_def validateAndAdjustDimensions_def adjustToOdd_def
        signed_modulo_int_def Let_def split: prod.splits)
  with New_error_iff[of 40 20 10 6] have "width m = 41 \<and> height m = 21" by simp
  with m show "\<exists>m. New 40 20 10 6 = Inr m \<and> width m = 41 \<and> height m = 21" by blast
qed

section \<open>Properties of solving\<close>

text \<open>A maze with no den, as the tests of \<open>Solve\<close> build it.\<close>

definition plainMaze :: "int \<Rightarrow> int \<Rightarrow> Cell list list \<Rightarrow> Point \<Rightarrow> Point \<Rightarrow> Maze" where
  "plainMaze w h g s e =
     \<lparr>width = w, height = h, grid = g, start = s, endp = e, door = zeroPoint,
      denWidth = 0, denHeight = 0, denStartX = 0, denStartY = 0\<rparr>"

text \<open>
  C10. When the start equals the end and lies inside the bounds, \<open>Solve\<close> returns the
  one-point path and true, whatever the grid holds there: the end test on the dequeued
  point comes before any read of the grid.
\<close>

theorem Solve_start_eq_end:
  assumes "start m = endp m"
    and "0 \<le> X (start m)" and "X (start m) < width m"
    and "0 \<le> Y (start m)" and "Y (start m) < height m"
  shows "Solve m = Some ([start m], True)"
  using assms
  by (simp add: Solve_def solveLoop.simps walkBack.simps reverseLoop.simps Let_def)

text \<open>On a 3 by 3 grid of walls, with start and end at its centre.\<close>

theorem Solve_start_eq_end_witness:
  "Solve (plainMaze 3 3 [[Wall, Wall, Wall], [Wall, Wall, Wall], [Wall, Wall, Wall]]
            \<lparr>X = 1, Y = 1\<rparr> \<lparr>X = 1, Y = 1\<rparr>) = Some ([\<lparr>X = 1, Y = 1\<rparr>], True) \<and>
   getCell (plainMaze 3 3 [[Wall, Wall, Wall], [Wall, Wall, Wall], [Wall, Wall, Wall]]
            \<lparr>X = 1, Y = 1\<rparr> \<lparr>X = 1, Y = 1\<rparr>) \<lparr>X = 1, Y = 1\<rparr> = Some Wall"
  using Solve_start_eq_end
    [of "plainMaze 3 3 [[Wall, Wall, Wall], [Wall, Wall, Wall], [Wall, Wall, Wall]]
            \<lparr>X = 1, Y = 1\<rparr> \<lparr>X = 1, Y = 1\<rparr>"]
  by (simp add: plainMaze_def getCell_def inGrid_def)

section \<open>Path reconstruction\<close>

text \<open>The first time the parent chain from p meets st is after n steps.\<close>

definition firstHit :: "(Point \<rightharpoonup> Point) \<Rightarrow> Point \<Rightarrow> Point \<Rightarrow> nat \<Rightarrow> bool" where
  "firstHit parent st p n =
     ((lookupParent parent ^^ n) p = st \<and> (\<forall>k < n. (lookupParent parent ^^ k) p \<noteq> st))"

definition chain :: "(Point \<rightharpoonup> Point) \<Rightarrow> Point \<Rightarrow> nat \<Rightarrow> Point list" where
  "chain parent p n = map (\<lambda>k. (lookupParent parent ^^ k) p) [0 ..< Suc n]"

lemma firstHit_0: "firstHit parent st p 0 = (p = st)"
  by (auto simp add: firstHit_def)

lemma firstHit_Suc:
  "firstHit parent st p (Suc n) = (p \<noteq> st \<and> firstHit parent st (lookupParent parent p) n)"
proof -
  have "(\<forall>k < Suc n. (lookupParent parent ^^ k) p \<noteq> st) =
        (p \<noteq> st \<and> (\<forall>k < n. (lookupParent parent ^^ k) (lookupParent parent p) \<noteq> st))"
    by (auto simp add: less_Suc_eq_0_disj funpow_swap1)
  then show ?thesis
    by (auto simp add: firstHit_def funpow_swap1)
qed

lemma chain_0: "chain parent p 0 = [p]"
  by (simp add: chain_def)

lemma chain_Suc: "chain parent p (Suc n) = p # chain parent (lookupParent parent p) n"
proof -
  have "[0 ..< Suc (Suc n)] = 0 # map Suc [0 ..< Suc n]"
    by (metis map_Suc_upt upt_conv_Cons zero_less_Suc)
  then show ?thesis
    by (simp add: chain_def funpow_swap1 comp_def del: upt_Suc)
qed

lemma walkBack_hit:
  "firstHit parent st p n \<Longrightarrow> walkBack parent st p acc = Some (acc @ chain parent p n)"
proof (induction n arbitrary: p acc)
  case 0
  then show ?case by (simp add: firstHit_0 chain_0 walkBack.simps)
next
  case (Suc n)
  then have ne: "p \<noteq> st" and h: "firstHit parent st (lookupParent parent p) n"
    by (simp_all add: firstHit_Suc)
  from Suc.IH[OF h, of "acc @ [p]"] ne show ?case
    by (subst walkBack.simps) (simp add: chain_Suc)
qed

lemma walkBack_Some:
  "walkBack parent st p acc = Some r \<Longrightarrow> \<exists>n. firstHit parent st p n"
proof (induction rule: walkBack.raw_induct[rotated 1, consumes 1])
  case (1 walkBack' parent st p acc r)
  show ?case
  proof (cases "p = st")
    case True
    then have "firstHit parent st p 0" by (simp add: firstHit_0)
    then show ?thesis ..
  next
    case False
    with 1(2) have "walkBack' parent st (lookupParent parent p) (acc @ [p]) = Some r"
      by (simp add: Let_def)
    from 1(1)[OF this] obtain n where "firstHit parent st (lookupParent parent p) n" ..
    with False have "firstHit parent st p (Suc n)" by (simp add: firstHit_Suc)
    then show ?thesis ..
  qed
qed

lemma countBack_hit:
  "firstHit parent st p n \<Longrightarrow> countBack parent st p l = Some (l + int n)"
proof (induction n arbitrary: p l)
  case 0
  then show ?case by (simp add: firstHit_0 countBack.simps)
next
  case (Suc n)
  then have ne: "p \<noteq> st" and h: "firstHit parent st (lookupParent parent p) n"
    by (simp_all add: firstHit_Suc)
  from Suc.IH[OF h, of "l + 1"] ne show ?case
    by (subst countBack.simps) simp
qed

lemma countBack_Some:
  "countBack parent st p l = Some r \<Longrightarrow> \<exists>n. firstHit parent st p n"
proof (induction rule: countBack.raw_induct[rotated 1, consumes 1])
  case (1 countBack' parent st p l r)
  show ?case
  proof (cases "p = st")
    case True
    then have "firstHit parent st p 0" by (simp add: firstHit_0)
    then show ?thesis ..
  next
    case False
    with 1(2) have "countBack' parent st (lookupParent parent p) (l + 1) = Some r"
      by simp
    from 1(1)[OF this] obtain n where "firstHit parent st (lookupParent parent p) n" ..
    with False have "firstHit parent st p (Suc n)" by (simp add: firstHit_Suc)
    then show ?thesis ..
  qed
qed

lemma reverseLoop_length: "length (reverseLoop i j xs) = length xs"
  by (induction i j xs rule: reverseLoop.induct) (subst reverseLoop.simps, simp)

lemma reverseLoop_nth:
  "0 \<le> i \<Longrightarrow> j < int (length xs) \<Longrightarrow> k < length xs \<Longrightarrow>
     reverseLoop i j xs ! k =
       (if i \<le> int k \<and> int k \<le> j then xs ! nat (i + j - int k) else xs ! k)"
proof (induction i j xs arbitrary: k rule: reverseLoop.induct)
  case (1 i j xs)
  show ?case
  proof (cases "i < j")
    case False
    then have "i \<le> int k \<and> int k \<le> j \<Longrightarrow> nat (i + j - int k) = k" by linarith
    with False show ?thesis by (subst reverseLoop.simps) auto
  next
    case True
    let ?xs = "xs[nat i := xs ! nat j, nat j := xs ! nat i]"
    have len: "length ?xs = length xs" by simp
    have ih: "reverseLoop (i + 1) (j - 1) ?xs ! k =
       (if i + 1 \<le> int k \<and> int k \<le> j - 1 then ?xs ! nat ((i + 1) + (j - 1) - int k) else ?xs ! k)"
      using "1.IH"[OF True, of k] "1.prems" by simp
    have ij: "nat i < length xs" "nat j < length xs" "nat i \<noteq> nat j"
      using True "1.prems" by auto
    show ?thesis
    proof (cases "i + 1 \<le> int k \<and> int k \<le> j - 1")
      case mid: True
      then have a: "nat (i + j - int k) \<noteq> nat i" "nat (i + j - int k) \<noteq> nat j"
        using "1.prems" by linarith+
      from mid ih a True show ?thesis
        by (subst reverseLoop.simps) (simp add: algebra_simps)
    next
      case nm: False
      consider "int k = i" | "int k = j" | "int k < i \<or> j < int k" using nm by linarith
      then show ?thesis
      proof cases
        case 1
        then have "k = nat i" by simp
        with nm ih True ij "1.prems" show ?thesis
          by (subst reverseLoop.simps) (simp add: nth_list_update)
      next
        case 2
        then have "k = nat j" by simp
        with nm ih True ij "1.prems" show ?thesis
          by (subst reverseLoop.simps) (simp add: nth_list_update)
      next
        case 3
        then have "k \<noteq> nat i" "k \<noteq> nat j" using "1.prems" True by linarith+
        with 3 nm ih True show ?thesis
          by (subst reverseLoop.simps) (auto simp add: nth_list_update)
      qed
    qed
  qed
qed

lemma reverseLoop_rev: "reverseLoop 0 (int (length xs) - 1) xs = rev xs"
proof (rule nth_equalityI)
  show "length (reverseLoop 0 (int (length xs) - 1) xs) = length (rev xs)"
    by (simp add: reverseLoop_length)
next
  fix k assume "k < length (reverseLoop 0 (int (length xs) - 1) xs)"
  then have k: "k < length xs" by (simp add: reverseLoop_length)
  then have "reverseLoop 0 (int (length xs) - 1) xs ! k = xs ! nat (int (length xs) - 1 - int k)"
    by (subst reverseLoop_nth) auto
  also have "nat (int (length xs) - 1 - int k) = length xs - Suc k" using k by linarith
  finally show "reverseLoop 0 (int (length xs) - 1) xs ! k = rev xs ! k"
    using k by (simp add: rev_nth)
qed


lemma fillBack_chain:
  "i < length xs \<Longrightarrow>
     fillBack parent (int i) p xs = rev (chain parent p i) @ drop (Suc i) xs"
proof (induction i arbitrary: p xs)
  case 0
  then have "xs[0 := p] = p # drop (Suc 0) xs"
    by (cases xs) simp_all
  then show ?case
    by (simp add: fillBack.simps[of _ 0] fillBack.simps[of _ "- 1"] chain_0)
next
  case (Suc i)
  let ?xs = "xs[Suc i := p]"
  have i: "i < length ?xs" using Suc.prems by simp
  have "fillBack parent (int (Suc i)) p xs = fillBack parent (int i) (lookupParent parent p) ?xs"
    by (subst fillBack.simps) (simp add: Let_def nat_add_distrib)
  also have "\<dots> = rev (chain parent (lookupParent parent p) i) @ drop (Suc i) ?xs"
    by (rule Suc.IH[OF i])
  also have "drop (Suc i) ?xs = p # drop (Suc (Suc i)) xs"
  proof -
    have "drop (Suc i) ?xs = ?xs ! Suc i # drop (Suc (Suc i)) ?xs"
      using Suc.prems Cons_nth_drop_Suc[of "Suc i" ?xs] by (simp del: drop_update_cancel)
    also have "?xs ! Suc i = p" using Suc.prems by simp
    also have "drop (Suc (Suc i)) ?xs = drop (Suc (Suc i)) xs" by simp
    finally show ?thesis .
  qed
  finally show ?case by (simp add: chain_Suc)
qed

lemma length_chain: "length (chain parent p n) = Suc n"
  by (simp add: chain_def)

lemma reconstruct_eq:
  "(case countBack parent st e 1 of
      None \<Rightarrow> None
    | Some pathLen \<Rightarrow>
        Some (fillBack parent (pathLen - 1) e (replicate (nat pathLen) zeroPoint), True)) =
   (case walkBack parent st e [] of
      None \<Rightarrow> None
    | Some fullPath \<Rightarrow> Some (reverseLoop 0 (int (length fullPath) - 1) fullPath, True))"
proof (cases "\<exists>n. firstHit parent st e n")
  case True
  then obtain n where n: "firstHit parent st e n" ..
  have w: "walkBack parent st e [] = Some (chain parent e n)"
    using walkBack_hit[OF n, of "[]"] by simp
  have c: "countBack parent st e 1 = Some (1 + int n)"
    by (rule countBack_hit[OF n])
  have "fillBack parent (int n) e (replicate (Suc n) zeroPoint) = rev (chain parent e n)"
    by (subst fillBack_chain) simp_all
  moreover have "nat (1 + int n) = Suc n" by simp
  ultimately show ?thesis
    by (simp add: w c reverseLoop_rev)
next
  case False
  then have "walkBack parent st e [] = None" "countBack parent st e 1 = None"
    using walkBack_Some countBack_Some by (metis not_Some_eq)+
  then show ?thesis by simp
qed

text \<open>The grid of the first test of \<open>Solve\<close>: a corridor of three cells.\<close>

definition corridorMaze :: Maze where
  "corridorMaze =
     plainMaze 5 3
       [[Wall, Wall, Wall, Wall, Wall], [Wall, Start, Path, End, Wall], [Wall, Wall, Wall, Wall, Wall]]
       \<lparr>X = 1, Y = 1\<rparr> \<lparr>X = 3, Y = 1\<rparr>"

lemma Solve_corridorMaze:
  "Solve corridorMaze = Some ([\<lparr>X = 1, Y = 1\<rparr>, \<lparr>X = 2, Y = 1\<rparr>, \<lparr>X = 3, Y = 1\<rparr>], True)"
  by (simp add: Solve_def corridorMaze_def plainMaze_def solveLoop.simps dirs4_def getCell_def
      inGrid_def walkBack.simps lookupParent_def reverseLoop.simps Let_def)

text \<open>
  C8. The two implementations of \<open>Solve\<close> return the same result on every maze state:
  the same path, point for point, and the same flag; when one does not return (a panic,
  or a parent chain that never meets the start), neither does the other.
\<close>

theorem Solve_prealloc_eq: "Solve_prealloc m = Solve m"
  by (simp add: Solve_prealloc_def Solve_def reconstruct_eq split: option.splits)

theorem Solve_prealloc_eq_witness:
  "Solve_prealloc corridorMaze =
     Some ([\<lparr>X = 1, Y = 1\<rparr>, \<lparr>X = 2, Y = 1\<rparr>, \<lparr>X = 3, Y = 1\<rparr>], True)"
  using Solve_prealloc_eq[of corridorMaze] by (simp add: Solve_corridorMaze)

section \<open>Properties of generation: the start point\<close>

lemma smod2_zero_iff: "((k::int) smod 2 = 0) = even k"
  by (auto simp add: signed_modulo_int_def sgn_if)

lemma setCell_fields:
  "setCell m p c = Some m' \<Longrightarrow>
     width m' = width m \<and> height m' = height m \<and> start m' = start m \<and> endp m' = endp m \<and>
     door m' = door m \<and> denWidth m' = denWidth m \<and> denHeight m' = denHeight m \<and>
     denStartX m' = denStartX m \<and> denStartY m' = denStartY m"
  by (auto simp add: setCell_def split: if_splits)

definition invalidStart :: "Maze \<Rightarrow> Point \<Rightarrow> bool" where
  "invalidStart m s =
     (even (X s) \<or> even (Y s) \<or>
      \<not> (0 < X s \<and> X s < width m - 1 \<and> 0 < Y s \<and> Y s < height m - 1) \<or>
      IsInsideDen m s)"

lemma Generate_invalid:
  "invalidStart m s \<Longrightarrow>
     Generate NewSource m seed (Some s) userDoor doorSide bias =
       Some (m, Some (if X s \<le> 0 \<or> X s \<ge> width m - 1 \<or> Y s \<le> 0 \<or> Y s \<ge> height m - 1 \<or>
                         even (X s) \<or> even (Y s) then ErrStartPoint else ErrStartInDen))"
  by (auto simp add: Generate_def invalidStart_def smod2_zero_iff)

lemma Generate_valid:
  "\<not> invalidStart m s \<Longrightarrow>
     Generate NewSource m seed (Some s) userDoor doorSide bias =
       (case runDFS m (NewSource seed) s bias of
          None \<Rightarrow> None
        | Some (m1, r2) \<Rightarrow>
            (case connectDen m1 r2 userDoor doorSide of
               None \<Rightarrow> None
             | Some (m2, Some err) \<Rightarrow> Some (m2, Some err)
             | Some (m2, None) \<Rightarrow>
                 (case placeStartAndEnd m2 s True of
                    None \<Rightarrow> None
                  | Some m3 \<Rightarrow> Some (m3, None))))"
  by (simp add: Generate_def invalidStart_def smod2_zero_iff
      cong: option.case_cong prod.case_cong)

lemma openDoor_no_error: "openDoor m d = Some (m', e) \<Longrightarrow> e = None"
  by (auto simp add: openDoor_def split: option.splits)

lemma connectDen_error:
  "connectDen m r userDoor doorSide = Some (m', Some e) \<Longrightarrow>
     e \<in> {ErrDoorSide, ErrDoorEdge, ErrDoorConnect, ErrDoorWall, ErrDoorNoConnection}"
  by (auto simp add: connectDen_def connectDenAtSide_def connectDenAtPoint_def
      connectRandomDenDoor_def
      split: if_splits option.splits prod.splits bool.splits dest: openDoor_no_error)

lemma placeStartAndEnd_provided:
  "placeStartAndEnd m s True = Some m' \<Longrightarrow> start m' = s"
  by (auto simp add: placeStartAndEnd_def Let_def split: option.splits dest!: setCell_fields)

subsection \<open>A five by five maze with a one-cell den, generated step by step\<close>

definition denMaze5 :: Maze where
  "denMaze5 = \<lparr>width = 5, height = 5,
        grid =
          [[Wall, Wall, Wall, Wall, Wall], [Wall, Path, Wall, Wall, Wall],
           [Wall, Wall, Wall, Wall, Wall], [Wall, Wall, Wall, Wall, Wall],
           [Wall, Wall, Wall, Wall, Wall]],
        start = zeroPoint, endp = zeroPoint, door = zeroPoint,
        denWidth = 1, denHeight = 1, denStartX = 1, denStartY = 1\<rparr>"

lemmas eval_grid = getCell_def setCell_def inGrid_def
lemmas eval_den = IsInsideDen_def IsAdjacentToDen_def dirs4_def
lemmas eval_dfs = runDFS_def runDFSLoop.simps findValidNeighbors_def dirs2_def
  signed_divide_int_def chooseBiasedNeighbor_def pickNeighbor_def Intn_def Float64_def zeroPoint_def Let_def




definition carved5 :: Maze where
  "carved5 = denMaze5\<lparr>grid :=
            [[Wall, Wall, Wall, Wall, Wall], [Wall, Path, Wall, Path, Wall],
             [Wall, Wall, Wall, Path, Wall], [Wall, Path, Path, Path, Wall],
             [Wall, Wall, Wall, Wall, Wall]]\<rparr>"

lemma runDFS_denMaze5: "runDFS denMaze5 (sconst 0) \<lparr>X = 3, Y = 3\<rparr> 0 = Some (carved5, sconst 0)"
  by (simp add: denMaze5_def carved5_def eval_dfs eval_grid eval_den)

lemmas eval_door = connectDen_def connectRandomDenDoor_def separatesDen_def bothPath_def openDoor_def
  Intn_def Let_def

lemma upto_1_3: "[1 .. 3] = [1, 2, 3::int]"
  by (simp add: upto.simps)

definition doored5 :: Maze where
  "doored5 = denMaze5\<lparr>grid :=
            [[Wall, Wall, Wall, Wall, Wall], [Wall, Path, Path, Path, Wall],
             [Wall, Wall, Wall, Path, Wall], [Wall, Path, Path, Path, Wall],
             [Wall, Wall, Wall, Wall, Wall]], door := \<lparr>X = 2, Y = 1\<rparr>\<rparr>"

lemma connectDen_carved5: "connectDen carved5 (sconst 0) None [] = Some (doored5, None)"
  by (simp add: carved5_def doored5_def denMaze5_def eval_door eval_grid eval_den upto_1_3 zeroPoint_def)

lemmas eval_far = placeStartAndEnd_def findFarthestPoint_def farLoop.simps lookupDist_def Let_def

definition final5 :: Maze where
  "final5 = denMaze5\<lparr>grid :=
            [[Wall, Wall, Wall, Wall, Wall], [Wall, Path, Path, End, Wall],
             [Wall, Wall, Wall, Path, Wall], [Wall, Path, Path, Start, Wall],
             [Wall, Wall, Wall, Wall, Wall]],
          start := \<lparr>X = 3, Y = 3\<rparr>, endp := \<lparr>X = 3, Y = 1\<rparr>, door := \<lparr>X = 2, Y = 1\<rparr>\<rparr>"

lemma placeStartAndEnd_doored5: "placeStartAndEnd doored5 \<lparr>X = 3, Y = 3\<rparr> True = Some final5"
  by (simp add: doored5_def final5_def denMaze5_def eval_far eval_grid eval_den zeroPoint_def)

lemma valid_start_denMaze5: "\<not> invalidStart denMaze5 \<lparr>X = 3, Y = 3\<rparr>"
  by (simp add: invalidStart_def denMaze5_def IsInsideDen_def)

lemma Generate_denMaze5:
  "Generate (\<lambda>seed. sconst 0) denMaze5 1 (Some \<lparr>X = 3, Y = 3\<rparr>) None [] 0 = Some (final5, None)"
  by (simp add: Generate_valid[OF valid_start_denMaze5] runDFS_denMaze5 connectDen_carved5
      placeStartAndEnd_doored5)

lemma Generate_denMaze5_bad_side:
  "Generate (\<lambda>seed. sconst 0) denMaze5 1 (Some \<lparr>X = 3, Y = 3\<rparr>) None ''x'' 0
     = Some (carved5, Some ErrDoorSide)"
proof -
  have "connectDen carved5 (sconst 0) None ''x'' = Some (carved5, Some ErrDoorSide)"
    by (simp add: connectDen_def connectDenAtSide_def sideDoor_def carved5_def denMaze5_def)
  then show ?thesis
    by (simp add: Generate_valid[OF valid_start_denMaze5] runDFS_denMaze5)
qed

text \<open>
  C6, as stated, fails: with a valid start point and an unknown door side, \<open>Generate\<close>
  returns a validation error all the same (that of the door), and the start of the maze
  is still the zero point.
\<close>

theorem Generate_start_validation_counterexample:
  "map_option (\<lambda>(m', e). (start m', e))
     (Generate (\<lambda>seed. sconst 0) denMaze5 1 (Some \<lparr>X = 3, Y = 3\<rparr>) None ''x'' 0)
     = Some (\<lparr>X = 0, Y = 0\<rparr>, Some ErrDoorSide) \<and>
   \<not> invalidStart denMaze5 \<lparr>X = 3, Y = 3\<rparr>"
proof -
  have "start carved5 = \<lparr>X = 0, Y = 0\<rparr>"
    by (simp add: carved5_def denMaze5_def zeroPoint_def)
  then show ?thesis
    by (simp add: Generate_denMaze5_bad_side valid_start_denMaze5)
qed

text \<open>
  C6, amended. \<open>Generate\<close> returns one of the two start-point errors exactly when the
  supplied point has an even coordinate, is not strictly inside the border, or is inside
  the den; and whenever \<open>Generate\<close> returns without an error, the supplied point is the
  start of the maze.
\<close>

theorem Generate_start_validation:
  "((\<exists>m' e. Generate NewSource m seed (Some s) userDoor doorSide bias = Some (m', Some e) \<and>
            (e = ErrStartPoint \<or> e = ErrStartInDen)) = invalidStart m s) \<and>
   (\<forall>m'. Generate NewSource m seed (Some s) userDoor doorSide bias = Some (m', None) \<longrightarrow>
          start m' = s)"
proof (cases "invalidStart m s")
  case True
  then show ?thesis by (auto simp add: Generate_invalid)
next
  case False
  have "\<not> (\<exists>m' e. Generate NewSource m seed (Some s) userDoor doorSide bias = Some (m', Some e) \<and>
            (e = ErrStartPoint \<or> e = ErrStartInDen))"
    by (auto simp add: Generate_valid[OF False] split: option.splits dest: connectDen_error)
  moreover have "\<forall>m'. Generate NewSource m seed (Some s) userDoor doorSide bias = Some (m', None) \<longrightarrow>
          start m' = s"
    by (auto simp add: Generate_valid[OF False] split: option.splits dest: placeStartAndEnd_provided)
  ultimately show ?thesis using False by simp
qed

theorem Generate_start_validation_witness:
  "(\<exists>m' e. Generate (\<lambda>seed. sconst 0) denMaze5 1 (Some \<lparr>X = 2, Y = 3\<rparr>) None [] 0 = Some (m', Some e) \<and>
            (e = ErrStartPoint \<or> e = ErrStartInDen)) \<and>
   start final5 = \<lparr>X = 3, Y = 3\<rparr>"
proof -
  have "invalidStart denMaze5 \<lparr>X = 2, Y = 3\<rparr>" by (simp add: invalidStart_def)
  moreover have "start final5 = \<lparr>X = 3, Y = 3\<rparr>"
    using Generate_start_validation
      [of "\<lambda>seed. sconst 0" denMaze5 1 "\<lparr>X = 3, Y = 3\<rparr>" None "[]" 0]
      Generate_denMaze5 by simp
  ultimately show ?thesis
    using Generate_start_validation
      [of "\<lambda>seed. sconst 0" denMaze5 1 "\<lparr>X = 2, Y = 3\<rparr>" None "[]" 0]
    by simp
qed

text \<open>
  C9. A supplied start point that fails validation makes \<open>Generate\<close> return an error
  and leave the maze as it was: the grid, the start, the end and the door.
\<close>

theorem Generate_invalid_start_atomic:
  assumes "even (X s) \<or> even (Y s) \<or>
      \<not> (0 < X s \<and> X s < width m - 1 \<and> 0 < Y s \<and> Y s < height m - 1) \<or> IsInsideDen m s"
  shows "\<exists>e. Generate NewSource m seed (Some s) userDoor doorSide bias = Some (m, Some e)"
  using Generate_invalid[of m s] assms unfolding invalidStart_def by blast

theorem Generate_invalid_start_atomic_witness:
  "\<exists>e. Generate (\<lambda>seed. sconst 0) denMaze5 1 (Some \<lparr>X = 1, Y = 1\<rparr>) None [] 0
         = Some (denMaze5, Some e)"
  using Generate_invalid_start_atomic
    [of "\<lparr>X = 1, Y = 1\<rparr>" denMaze5 "\<lambda>seed. sconst 0" 1 None "[]" 0]
  by (simp add: denMaze5_def IsInsideDen_def)

section \<open>Determinism of generation\<close>






section \<open>Correctness of the search of Solve\<close>

text \<open>
  A well-formed maze: the grid has \<open>height\<close> rows of \<open>width\<close> cells, as \<open>New\<close> builds
  it and as the tests write it.
\<close>

definition wfMaze :: "Maze \<Rightarrow> bool" where
  "wfMaze m = (length (grid m) = nat (height m) \<and> (\<forall>row \<in> set (grid m). length row = nat (width m)))"

text \<open>Cardinal adjacency, and a cell a path may step on: inside the bounds and not a wall.\<close>

definition adjacent :: "Point \<Rightarrow> Point \<Rightarrow> bool" where
  "adjacent p q = (\<bar>X p - X q\<bar> + \<bar>Y p - Y q\<bar> = 1)"

definition walkable :: "Maze \<Rightarrow> Point \<Rightarrow> bool" where
  "walkable m p = (p \<in> box m \<and> getCell m p \<noteq> Some Wall)"

lemma inGrid_box: "wfMaze m \<Longrightarrow> inGrid (grid m) p = (p \<in> box m)"
proof -
  assume wf: "wfMaze m"
  show ?thesis
  proof (cases "0 \<le> Y p \<and> nat (Y p) < length (grid m)")
    case True
    then have "grid m ! nat (Y p) \<in> set (grid m)" by simp
    with wf have "length (grid m ! nat (Y p)) = nat (width m)" by (simp add: wfMaze_def)
    with True wf show ?thesis by (auto simp add: inGrid_def box_def wfMaze_def)
  next
    case False
    with wf show ?thesis by (auto simp add: inGrid_def box_def wfMaze_def)
  qed
qed

lemma getCell_box: "wfMaze m \<Longrightarrow> p \<in> box m \<Longrightarrow> \<exists>c. getCell m p = Some c"
  by (simp add: getCell_def inGrid_box)

lemma adjacent_sym: "adjacent p q = adjacent q p"
  by (auto simp add: adjacent_def)

lemma adjacent_dirs4:
  "adjacent p q = (\<exists>d \<in> set dirs4. q = \<lparr>X = X p + X d, Y = Y p + Y d\<rparr>)"
proof
  assume "adjacent p q"
  then have "(X q = X p \<and> Y q = Y p - 1) \<or> (X q = X p \<and> Y q = Y p + 1) \<or>
             (X q = X p - 1 \<and> Y q = Y p) \<or> (X q = X p + 1 \<and> Y q = Y p)"
    unfolding adjacent_def by linarith
  then show "\<exists>d \<in> set dirs4. q = \<lparr>X = X p + X d, Y = Y p + Y d\<rparr>"
    by (cases q) (auto simp add: dirs4_def)
next
  assume "\<exists>d \<in> set dirs4. q = \<lparr>X = X p + X d, Y = Y p + Y d\<rparr>"
  then show "adjacent p q" by (auto simp add: dirs4_def adjacent_def)
qed

text \<open>The inner loop in closed form: the new points, in the order of the directions.\<close>

lemma solveNeighbors_closed:
  assumes wf: "wfMaze m"
  shows "\<exists>new. solveNeighbors m c ds q v par =
            Some (q @ new, v \<union> set new, (\<lambda>p. if p \<in> set new then Some c else par p)) \<and>
          distinct new \<and>
          set new = {n. (\<exists>d \<in> set ds. n = \<lparr>X = X c + X d, Y = Y c + Y d\<rparr>) \<and> walkable m n \<and> n \<notin> v}"
proof (induction ds arbitrary: q v par)
  case Nil
  show ?case by (rule exI[of _ "[]"]) simp
next
  case (Cons d ds)
  let ?n = "\<lparr>X = X c + X d, Y = Y c + Y d\<rparr>"
  show ?case
  proof (cases "walkable m ?n \<and> ?n \<notin> v")
    case False
    have step: "solveNeighbors m c (d # ds) q v par = solveNeighbors m c ds q v par"
    proof (cases "?n \<in> box m")
      case True
      with getCell_box[OF wf True] False show ?thesis
        by (auto simp add: Let_def walkable_def box_def)
    next
      case False
      then show ?thesis by (auto simp add: Let_def box_def)
    qed
    from Cons.IH[of q v par] obtain new where
      n: "solveNeighbors m c ds q v par =
            Some (q @ new, v \<union> set new, (\<lambda>p. if p \<in> set new then Some c else par p))"
      "distinct new"
      "set new = {n. (\<exists>d \<in> set ds. n = \<lparr>X = X c + X d, Y = Y c + Y d\<rparr>) \<and> walkable m n \<and> n \<notin> v}"
      by blast
    have "set new = {n. (\<exists>d \<in> set (d # ds). n = \<lparr>X = X c + X d, Y = Y c + Y d\<rparr>) \<and> walkable m n \<and> n \<notin> v}"
      using n(3) False by auto
    with n(1,2) step show ?thesis by auto
  next
    case True
    then have nb: "?n \<in> box m" by (simp add: walkable_def)
    from getCell_box[OF wf nb] True
    have step: "solveNeighbors m c (d # ds) q v par =
            solveNeighbors m c ds (q @ [?n]) (insert ?n v) (par(?n \<mapsto> c))"
      using nb by (auto simp add: Let_def walkable_def box_def)
    from Cons.IH[of "q @ [?n]" "insert ?n v" "par(?n \<mapsto> c)"] obtain new where
      n: "solveNeighbors m c ds (q @ [?n]) (insert ?n v) (par(?n \<mapsto> c)) =
            Some ((q @ [?n]) @ new, insert ?n v \<union> set new,
                  (\<lambda>p. if p \<in> set new then Some c else (par(?n \<mapsto> c)) p))"
      "distinct new"
      "set new = {n. (\<exists>d \<in> set ds. n = \<lparr>X = X c + X d, Y = Y c + Y d\<rparr>) \<and> walkable m n \<and>
                     n \<notin> insert ?n v}"
      by blast
    let ?new = "?n # new"
    have a: "(q @ [?n]) @ new = q @ ?new" by simp
    have b: "insert ?n v \<union> set new = v \<union> set ?new" by auto
    have c: "(\<lambda>p. if p \<in> set new then Some c else (par(?n \<mapsto> c)) p) =
             (\<lambda>p. if p \<in> set ?new then Some c else par p)" by (rule ext) auto
    have d: "distinct ?new" using n(2,3) by auto
    have e: "set ?new = {n. (\<exists>d \<in> set (d # ds). n = \<lparr>X = X c + X d, Y = Y c + Y d\<rparr>) \<and>
                            walkable m n \<and> n \<notin> v}"
      using n(3) True by auto
    from step n(1) a b c have "solveNeighbors m c (d # ds) q v par =
            Some (q @ ?new, v \<union> set ?new, (\<lambda>p. if p \<in> set ?new then Some c else par p))"
      by (simp only:)
    with d e show ?thesis by blast
  qed
qed

text \<open>
  The invariant of the search loop. \<open>dep\<close> is a ghost: the number of parent steps from
  a queued point back to the start. The queue is sorted by it, its last depth is at
  most one more than the depth at the head, every queued point but the start has its
  parent among the dequeued points, and every dequeued point is not the end and has all
  its walkable neighbours queued.
\<close>

definition sinv ::
  "Maze \<Rightarrow> Point list \<Rightarrow> nat \<Rightarrow> Point set \<Rightarrow> (Point \<rightharpoonup> Point) \<Rightarrow> (Point \<Rightarrow> nat) \<Rightarrow> bool" where
  "sinv m q h v par dep =
     (v = set q \<and> distinct q \<and> h \<le> length q \<and> q \<noteq> [] \<and> hd q = start m \<and> dep (start m) = 0 \<and>
      (\<forall>p \<in> set q. p \<noteq> start m \<longrightarrow>
         (\<exists>c. par p = Some c \<and> c \<in> set (take h q) \<and> adjacent c p \<and> walkable m p \<and>
              dep p = Suc (dep c))) \<and>
      sorted (map dep q) \<and>
      (h < length q \<longrightarrow> (\<forall>p \<in> set q. dep p \<le> Suc (dep (q ! h)))) \<and>
      (\<forall>u \<in> set (take h q). u \<noteq> endp m \<and>
         (\<forall>n. adjacent u n \<and> walkable m n \<longrightarrow> n \<in> set q \<and> dep n \<le> Suc (dep u))))"

lemma sinv_init: "sinv m [start m] 0 {start m} Map.empty (\<lambda>p. 0)"
  by (simp add: sinv_def)

lemma sinv_step:
  assumes inv: "sinv m q h v par dep" and h: "h < length q" and ne: "q ! h \<noteq> endp m"
    and dn: "distinct new"
    and sn: "set new = {n. (\<exists>d \<in> set dirs4. n = \<lparr>X = X (q ! h) + X d, Y = Y (q ! h) + Y d\<rparr>) \<and>
                          walkable m n \<and> n \<notin> v}"
  shows "sinv m (q @ new) (Suc h) (v \<union> set new)
           (\<lambda>p. if p \<in> set new then Some (q ! h) else par p)
           (\<lambda>p. if p \<in> set new then Suc (dep (q ! h)) else dep p)"
proof -
  define cur where "cur = q ! h"
  define par' where "par' = (\<lambda>p. if p \<in> set new then Some cur else par p)"
  define dep' where "dep' = (\<lambda>p. if p \<in> set new then Suc (dep cur) else dep p)"
  define q' where "q' = q @ new"
  from inv have v: "v = set q" and dq: "distinct q" and qne: "q \<noteq> []" and hq: "hd q = start m"
    and d0: "dep (start m) = 0" and so: "sorted (map dep q)"
    and pa0: "\<forall>p \<in> set q. p \<noteq> start m \<longrightarrow>
         (\<exists>c. par p = Some c \<and> c \<in> set (take h q) \<and> adjacent c p \<and> walkable m p \<and>
              dep p = Suc (dep c))"
    and la0: "h < length q \<longrightarrow> (\<forall>p \<in> set q. dep p \<le> Suc (dep (q ! h)))"
    and cl0: "\<forall>u \<in> set (take h q). u \<noteq> endp m \<and>
         (\<forall>n. adjacent u n \<and> walkable m n \<longrightarrow> n \<in> set q \<and> dep n \<le> Suc (dep u))"
    unfolding sinv_def by simp_all
  have pa: "\<exists>c. par p = Some c \<and> c \<in> set (take h q) \<and> adjacent c p \<and> walkable m p \<and> dep p = Suc (dep c)"
    if "p \<in> set q" "p \<noteq> start m" for p using pa0 that by blast
  have la: "dep p \<le> Suc (dep cur)" if "p \<in> set q" for p using la0 h that cur_def by blast
  have cl: "u \<noteq> endp m" "adjacent u n \<Longrightarrow> walkable m n \<Longrightarrow> n \<in> set q \<and> dep n \<le> Suc (dep u)"
    if "u \<in> set (take h q)" for u n using cl0 that by blast+
  have cur: "cur \<in> set q" using h by (simp add: cur_def)
  have disj: "p \<notin> set q" if "p \<in> set new" for p using sn v that by auto
  have newp: "adjacent cur p \<and> walkable m p" if "p \<in> set new" for p
    using sn that by (auto simp add: adjacent_dirs4 cur_def)
  have nbr_new: "n \<in> set new" if "adjacent cur n" "walkable m n" "n \<notin> set q" for n
    using sn v that by (auto simp add: adjacent_dirs4 cur_def)
  have depq: "dep' p = dep p" if "p \<in> set q" for p using disj that by (auto simp add: dep'_def)
  have depn: "dep' p = Suc (dep cur)" if "p \<in> set new" for p using that by (simp add: dep'_def)
  have parq: "par' p = par p" if "p \<in> set q" for p using disj that by (auto simp add: par'_def)
  have parn: "par' p = Some cur" if "p \<in> set new" for p using that by (simp add: par'_def)
  have st: "start m \<in> set q" using qne hq by (metis hd_in_set)
  have sq': "set q' = set q \<union> set new" by (simp add: q'_def)
  have tk: "take (Suc h) q' = take h q @ [cur]"
    using h by (simp add: take_Suc_conv_app_nth q'_def cur_def)
  have stk: "set (take (Suc h) q') = insert cur (set (take h q))" by (simp add: tk)
  have tkq: "set (take h q) \<subseteq> set q" by (rule set_take_subset)
  have qh: "q' ! h = cur" using h by (simp add: nth_append q'_def cur_def)
  have c1: "v \<union> set new = set q'" using v by (simp add: q'_def)
  have c2: "distinct q'" using dq dn disj by (auto simp add: q'_def)
  have c3: "Suc h \<le> length q'" using h by (simp add: q'_def)
  have c4: "q' \<noteq> []" "hd q' = start m" using qne hq by (simp_all add: q'_def)
  have c5: "dep' (start m) = 0" using st d0 depq by simp
  have c6: "\<forall>p \<in> set q'. p \<noteq> start m \<longrightarrow>
         (\<exists>c. par' p = Some c \<and> c \<in> set (take (Suc h) q') \<and> adjacent c p \<and> walkable m p \<and>
              dep' p = Suc (dep' c))"
  proof (intro ballI impI)
    fix p assume p: "p \<in> set q'" and ps: "p \<noteq> start m"
    show "\<exists>c. par' p = Some c \<and> c \<in> set (take (Suc h) q') \<and> adjacent c p \<and> walkable m p \<and>
              dep' p = Suc (dep' c)"
    proof (cases "p \<in> set new")
      case True
      have "cur \<in> set (take (Suc h) q')" by (simp add: stk)
      moreover have "dep' p = Suc (dep' cur)" using depn[OF True] depq[OF cur] by simp
      ultimately show ?thesis using newp[OF True] parn[OF True] by blast
    next
      case False
      with p have pq: "p \<in> set q" by (simp add: sq')
      from pa[OF pq ps] obtain c where c: "par p = Some c" "c \<in> set (take h q)" "adjacent c p"
        "walkable m p" "dep p = Suc (dep c)" by blast
      have "c \<in> set q" using c(2) tkq by blast
      then have "dep' c = dep c" by (rule depq)
      moreover have "par' p = Some c" using parq[OF pq] c(1) by simp
      moreover have "c \<in> set (take (Suc h) q')" using c(2) by (simp add: stk)
      moreover have "dep' p = dep p" using pq by (rule depq)
      ultimately show ?thesis using c(3,4,5) by auto
    qed
  qed
  have mq: "map dep' q = map dep q" using depq by simp
  have mn: "map dep' new = replicate (length new) (Suc (dep cur))"
    using depn by (simp add: map_replicate_const[symmetric])
  have c7: "sorted (map dep' q')"
  proof -
    have "sorted (map dep' new)" by (simp only: mn sorted_replicate)
    moreover have "\<forall>x \<in> set (map dep q). \<forall>y \<in> set (map dep' new). x \<le> y"
      using la by (auto simp add: mn)
    ultimately show ?thesis using so by (simp only: q'_def map_append sorted_append mq)
  qed
  have c8: "Suc h < length q' \<longrightarrow> (\<forall>p \<in> set q'. dep' p \<le> Suc (dep' (q' ! Suc h)))"
  proof (intro impI ballI)
    fix p assume lt: "Suc h < length q'" and p: "p \<in> set q'"
    have "map dep' q' ! h \<le> map dep' q' ! Suc h"
      using c7 lt by (intro sorted_nth_mono) simp_all
    then have "dep' (q' ! h) \<le> dep' (q' ! Suc h)" using lt by simp
    then have le: "dep cur \<le> dep' (q' ! Suc h)" using depq[OF cur] by (simp add: qh)
    show "dep' p \<le> Suc (dep' (q' ! Suc h))"
    proof (cases "p \<in> set new")
      case True
      then show ?thesis using le depn by simp
    next
      case False
      with p have "p \<in> set q" by (simp add: sq')
      from la[OF this] depq[OF this] le show ?thesis by simp
    qed
  qed
  have c9: "\<forall>u \<in> set (take (Suc h) q'). u \<noteq> endp m \<and>
         (\<forall>n. adjacent u n \<and> walkable m n \<longrightarrow> n \<in> set q' \<and> dep' n \<le> Suc (dep' u))"
  proof (intro ballI conjI allI impI)
    fix u assume "u \<in> set (take (Suc h) q')"
    then have "u \<in> set (take h q) \<or> u = cur" by (auto simp add: stk)
    then show "u \<noteq> endp m" using cl(1) ne by (auto simp add: cur_def)
  next
    fix u n assume u: "u \<in> set (take (Suc h) q')" and an: "adjacent u n \<and> walkable m n"
    from u have uq: "u \<in> set q" using tkq cur by (auto simp add: stk)
    from u consider "u \<in> set (take h q)" | "u = cur" by (auto simp add: stk)
    then have "n \<in> set q' \<and> dep' n \<le> Suc (dep u)"
    proof cases
      case 1
      from cl(2)[OF 1] an have "n \<in> set q" "dep n \<le> Suc (dep u)" by blast+
      then show ?thesis using depq by (simp add: sq')
    next
      case 2
      show ?thesis
      proof (cases "n \<in> set q")
        case True
        from la[OF True] depq[OF True] 2 True show ?thesis by (simp add: sq')
      next
        case False
        with an 2 have "n \<in> set new" using nbr_new by blast
        then show ?thesis using 2 depn by (simp add: sq')
      qed
    qed
    then show "n \<in> set q'" "dep' n \<le> Suc (dep' u)" using depq[OF uq] by simp_all
  qed
  have "sinv m q' (Suc h) (v \<union> set new) par' dep'"
    unfolding sinv_def by (intro conjI c1 c2 c3 c4 c5 c6 c7 c8 c9)
  then show ?thesis unfolding q'_def par'_def dep'_def cur_def .
qed

text \<open>
  The loop returns on every well-formed maze, and its final state satisfies the
  invariant: at the index of the end when it was found, at the end of the queue otherwise.
\<close>

definition sfinal ::
  "Maze \<Rightarrow> bool \<times> Point list \<times> nat \<times> Point set \<times> (Point \<rightharpoonup> Point) \<Rightarrow> bool" where
  "sfinal m res =
     (case res of (found, q, h, v, par) \<Rightarrow>
        (\<exists>dep. if found
               then 0 < h \<and> h - 1 < length q \<and> q ! (h - 1) = endp m \<and> sinv m q (h - 1) v par dep
               else h = length q \<and> sinv m q h v par dep))"

lemma solveLoop_final:
  "wfMaze m \<Longrightarrow> sinv m q h v par dep \<Longrightarrow>
     \<exists>res. solveLoop m q h v par = Some res \<and> sfinal m res"
proof (induction m q h v par arbitrary: dep rule: solveLoop.induct)
  case (1 m q h v par)
  note inv = "1.prems"(2) and wf = "1.prems"(1)
  show ?case
  proof (cases "h < length q")
    case False
    with inv have hl: "h = length q" by (simp add: sinv_def)
    have "solveLoop m q h v par = Some (False, q, h, v, par)"
      using False by (subst solveLoop.simps) simp
    moreover have "sfinal m (False, q, h, v, par)"
      using inv hl by (auto simp add: sfinal_def)
    ultimately show ?thesis by blast
  next
    case lt: True
    show ?thesis
    proof (cases "q ! h = endp m")
      case True
      have "solveLoop m q h v par = Some (True, q, h + 1, v, par)"
        using lt True by (subst solveLoop.simps) (simp add: Let_def)
      moreover have "sfinal m (True, q, h + 1, v, par)"
        using inv lt True by (auto simp add: sfinal_def)
      ultimately show ?thesis by blast
    next
      case False
      from solveNeighbors_closed[OF wf, of "q ! h" dirs4 q v par] obtain new where
        sn: "solveNeighbors m (q ! h) dirs4 q v par =
               Some (q @ new, v \<union> set new, (\<lambda>p. if p \<in> set new then Some (q ! h) else par p))"
        and dn: "distinct new"
        and st: "set new = {n. (\<exists>d \<in> set dirs4. n = \<lparr>X = X (q ! h) + X d, Y = Y (q ! h) + Y d\<rparr>) \<and>
                          walkable m n \<and> n \<notin> v}"
        by blast
      from sinv_step[OF inv lt False dn st]
      have inv': "sinv m (q @ new) (Suc h) (v \<union> set new)
           (\<lambda>p. if p \<in> set new then Some (q ! h) else par p)
           (\<lambda>p. if p \<in> set new then Suc (dep (q ! h)) else dep p)" .
      have "\<exists>res. solveLoop m (q @ new) (h + 1) (v \<union> set new)
                    (\<lambda>p. if p \<in> set new then Some (q ! h) else par p) = Some res \<and> sfinal m res"
        using "1.IH"[OF lt refl refl False sn refl refl wf] inv' by simp
      moreover have "solveLoop m q h v par =
          solveLoop m (q @ new) (h + 1) (v \<union> set new)
            (\<lambda>p. if p \<in> set new then Some (q ! h) else par p)"
        using lt False sn by (subst solveLoop.simps) (simp add: Let_def)
      ultimately show ?thesis by simp
    qed
  qed
qed

text \<open>
  A walk: consecutive points are cardinally adjacent and every point after the first
  is inside the bounds and not a wall. A valid path is a walk from the start to the end.
\<close>

fun isWalk :: "Maze \<Rightarrow> Point list \<Rightarrow> bool" where
  "isWalk m [] = False"
| "isWalk m [p] = True"
| "isWalk m (p # q # ps) = (adjacent p q \<and> walkable m q \<and> isWalk m (q # ps))"

definition validPath :: "Maze \<Rightarrow> Point list \<Rightarrow> bool" where
  "validPath m ps = (isWalk m ps \<and> hd ps = start m \<and> last ps = endp m)"

lemma isWalk_snoc:
  "xs \<noteq> [] \<Longrightarrow> isWalk m (xs @ [p]) = (isWalk m xs \<and> adjacent (last xs) p \<and> walkable m p)"
  by (induction m xs rule: isWalk.induct) auto

lemma isWalk_nonempty: "isWalk m ps \<Longrightarrow> ps \<noteq> []"
  by auto

text \<open>Along the parent pointers every queued point reaches the start in \<open>dep\<close> steps.\<close>

lemma chain_walk:
  assumes inv: "sinv m q h v par dep"
  shows "p \<in> set q \<Longrightarrow> dep p = n \<Longrightarrow>
           firstHit par (start m) p n \<and> isWalk m (rev (chain par p n)) \<and>
           hd (rev (chain par p n)) = start m \<and> last (rev (chain par p n)) = p"
proof (induction n arbitrary: p)
  case 0
  have "p = start m"
  proof (rule ccontr)
    assume "p \<noteq> start m"
    with inv "0.prems"(1) obtain c where "dep p = Suc (dep c)" unfolding sinv_def by blast
    with "0.prems"(2) show False by simp
  qed
  then show ?case by (simp add: firstHit_0 chain_0)
next
  case (Suc n)
  from inv have d0: "dep (start m) = 0" by (simp add: sinv_def)
  with Suc.prems(2) have ne: "p \<noteq> start m" by auto
  with inv Suc.prems(1) obtain c where c: "par p = Some c" "c \<in> set (take h q)" "adjacent c p"
    "walkable m p" "dep p = Suc (dep c)" unfolding sinv_def by blast
  have cq: "c \<in> set q" using c(2) set_take_subset by fast
  have dc: "dep c = n" using c(5) Suc.prems(2) by simp
  have lp: "lookupParent par p = c" using c(1) by (simp add: lookupParent_def)
  from Suc.IH[OF cq dc] have ih: "firstHit par (start m) c n" "isWalk m (rev (chain par c n))"
    "hd (rev (chain par c n)) = start m" "last (rev (chain par c n)) = c" by simp_all
  have nn: "rev (chain par c n) \<noteq> []" using length_chain[of par c n] by auto
  have r: "rev (chain par p (Suc n)) = rev (chain par c n) @ [p]" by (simp add: chain_Suc lp)
  have "firstHit par (start m) p (Suc n)" using ne ih(1) lp by (simp add: firstHit_Suc)
  moreover have "isWalk m (rev (chain par p (Suc n)))"
    using ih(2,4) c(3,4) by (simp only: r isWalk_snoc[OF nn])
  moreover have "hd (rev (chain par p (Suc n))) = start m" using ih(3) nn by (simp only: r) simp
  moreover have "last (rev (chain par p (Suc n))) = p" by (simp only: r) simp
  ultimately show ?case by blast
qed

text \<open>
  A walk from the start either stays among the queued points, each no deeper than its
  index, or meets a point that is still waiting in the queue, no deeper than its index.
\<close>

lemma walk_queue:
  assumes inv: "sinv m q h v par dep"
  shows "ps \<noteq> [] \<Longrightarrow> isWalk m ps \<Longrightarrow> hd ps = start m \<Longrightarrow>
           (\<forall>i < length ps. ps ! i \<in> set q \<and> dep (ps ! i) \<le> i) \<or>
           (\<exists>i < length ps. ps ! i \<in> set (drop h q) \<and> dep (ps ! i) \<le> i)"
proof (induction ps rule: rev_nonempty_induct)
  case (single x)
  from inv have "start m \<in> set q" "dep (start m) = 0"
    unfolding sinv_def by (metis hd_in_set)+
  with single show ?case by simp
next
  case (snoc x xs)
  from snoc.prems(1) snoc.hyps(1) have w: "isWalk m xs" "adjacent (last xs) x" "walkable m x"
    by (simp_all add: isWalk_snoc)
  from snoc.prems(2) snoc.hyps(1) have "hd xs = start m" by simp
  from snoc.IH[OF w(1) this] show ?case
  proof
    assume B: "\<exists>i < length xs. xs ! i \<in> set (drop h q) \<and> dep (xs ! i) \<le> i"
    then obtain i where "i < length xs" "xs ! i \<in> set (drop h q)" "dep (xs ! i) \<le> i" by blast
    then have "i < length (xs @ [x]) \<and> (xs @ [x]) ! i \<in> set (drop h q) \<and> dep ((xs @ [x]) ! i) \<le> i"
      by (simp add: nth_append)
    then show ?thesis by blast
  next
    assume A: "\<forall>i < length xs. xs ! i \<in> set q \<and> dep (xs ! i) \<le> i"
    let ?k = "length xs - 1"
    have k: "?k < length xs" using snoc.hyps(1) by simp
    have lk: "last xs = xs ! ?k" using snoc.hyps(1) by (simp add: last_conv_nth)
    from A k lk have u: "last xs \<in> set q" "dep (last xs) \<le> ?k" by simp_all
    have "set q = set (take h q) \<union> set (drop h q)" by (metis append_take_drop_id set_append)
    with u(1) consider "last xs \<in> set (take h q)" | "last xs \<in> set (drop h q)" by blast
    then show ?thesis
    proof cases
      case 1
      with inv w(2,3) have "x \<in> set q" "dep x \<le> Suc (dep (last xs))" unfolding sinv_def by blast+
      with u(2) k have x: "x \<in> set q" "dep x \<le> length xs" by simp_all
      have "\<forall>i < length (xs @ [x]). (xs @ [x]) ! i \<in> set q \<and> dep ((xs @ [x]) ! i) \<le> i"
      proof (intro allI impI)
        fix i assume "i < length (xs @ [x])"
        then consider "i < length xs" | "i = length xs" by fastforce
        then show "(xs @ [x]) ! i \<in> set q \<and> dep ((xs @ [x]) ! i) \<le> i"
          using A x by cases (simp_all add: nth_append)
      qed
      then show ?thesis by blast
    next
      case 2
      have "?k < length (xs @ [x]) \<and> (xs @ [x]) ! ?k \<in> set (drop h q) \<and> dep ((xs @ [x]) ! ?k) \<le> ?k"
        using 2 u(2) k lk by (simp add: nth_append)
      then show ?thesis by blast
    qed
  qed
qed

lemma Solve_found:
  assumes inv: "sinv m q k v par dep" and k: "k < length q" and e: "q ! k = endp m"
  shows "walkBack par (start m) (endp m) [] = Some (chain par (endp m) (dep (endp m)))"
    and "validPath m (rev (chain par (endp m) (dep (endp m))))"
    and "validPath m qs \<Longrightarrow> Suc (dep (endp m)) \<le> length qs"
proof -
  have eq: "endp m \<in> set q" using k e by (metis nth_mem)
  from chain_walk[OF inv eq refl]
  have cw: "firstHit par (start m) (endp m) (dep (endp m))"
    "isWalk m (rev (chain par (endp m) (dep (endp m))))"
    "hd (rev (chain par (endp m) (dep (endp m)))) = start m"
    "last (rev (chain par (endp m) (dep (endp m)))) = endp m" by simp_all
  show "walkBack par (start m) (endp m) [] = Some (chain par (endp m) (dep (endp m)))"
    using walkBack_hit[OF cw(1), of "[]"] by simp
  show "validPath m (rev (chain par (endp m) (dep (endp m))))"
    using cw(2,3,4) by (simp add: validPath_def)
  show "Suc (dep (endp m)) \<le> length qs" if vp: "validPath m qs"
  proof -
    from vp have w: "isWalk m qs" "hd qs = start m" "last qs = endp m" and ne: "qs \<noteq> []"
      by (auto simp add: validPath_def)
    from inv have so: "sorted (map dep q)" by (simp add: sinv_def)
    from walk_queue[OF inv ne w(1,2)] show ?thesis
    proof
      assume "\<forall>i < length qs. qs ! i \<in> set q \<and> dep (qs ! i) \<le> i"
      moreover have "length qs - 1 < length qs" using ne by simp
      ultimately have "dep (qs ! (length qs - 1)) \<le> length qs - 1" by blast
      moreover have "qs ! (length qs - 1) = endp m" using w(3) ne by (simp add: last_conv_nth)
      ultimately have a: "dep (endp m) \<le> length qs - 1" by simp
      have b: "1 \<le> length qs" using ne by (simp add: Suc_le_eq)
      from a b show ?thesis by linarith
    next
      assume "\<exists>i < length qs. qs ! i \<in> set (drop k q) \<and> dep (qs ! i) \<le> i"
      then obtain i where i: "i < length qs" "qs ! i \<in> set (drop k q)" "dep (qs ! i) \<le> i" by blast
      from i(2) obtain j where j: "j < length (drop k q)" "drop k q ! j = qs ! i"
        by (auto simp add: in_set_conv_nth)
      then have kj: "k + j < length q" "q ! (k + j) = qs ! i" by simp_all
      have "map dep q ! k \<le> map dep q ! (k + j)"
        using so kj(1) by (intro sorted_nth_mono) simp_all
      then have "dep (endp m) \<le> dep (qs ! i)" using k kj e by simp
      with i show ?thesis by simp
    qed
  qed
qed

lemma Solve_not_found:
  assumes inv: "sinv m q (length q) v par dep"
  shows "\<not> validPath m qs"
proof
  assume vp: "validPath m qs"
  then have w: "isWalk m qs" "hd qs = start m" "last qs = endp m" and ne: "qs \<noteq> []"
    by (auto simp add: validPath_def)
  from walk_queue[OF inv ne w(1,2)] have "\<forall>i < length qs. qs ! i \<in> set q \<and> dep (qs ! i) \<le> i"
    by simp
  moreover have "length qs - 1 < length qs" using ne by simp
  ultimately have "qs ! (length qs - 1) \<in> set q" by blast
  then have "endp m \<in> set (take (length q) q)" using w(3) ne by (simp add: last_conv_nth)
  with inv show False unfolding sinv_def by blast
qed

text \<open>
  C1, as stated, fails: the start cell is never tested, so a path can begin on a wall.
  On a corridor whose start cell is a wall, \<open>Solve\<close> returns the three-point path.
\<close>

definition wallStartMaze :: Maze where
  "wallStartMaze =
     plainMaze 5 3
       [[Wall, Wall, Wall, Wall, Wall], [Wall, Wall, Path, End, Wall], [Wall, Wall, Wall, Wall, Wall]]
       \<lparr>X = 1, Y = 1\<rparr> \<lparr>X = 3, Y = 1\<rparr>"

theorem Solve_shortest_counterexample:
  "Solve wallStartMaze = Some ([\<lparr>X = 1, Y = 1\<rparr>, \<lparr>X = 2, Y = 1\<rparr>, \<lparr>X = 3, Y = 1\<rparr>], True) \<and>
   getCell wallStartMaze \<lparr>X = 1, Y = 1\<rparr> = Some Wall"
  by (simp add: Solve_def wallStartMaze_def plainMaze_def solveLoop.simps dirs4_def getCell_def
      inGrid_def walkBack.simps lookupParent_def reverseLoop.simps Let_def)

text \<open>
  C1, amended. On a well-formed maze whose start is inside the bounds, \<open>Solve\<close> returns.
  If some walk leads from the start to the end (cardinal steps, every point after the
  start inside the bounds and not a wall), it returns such a walk and true, no longer
  than any other, of length one when the start is the end. Otherwise it returns the nil
  path and false.
\<close>

theorem Solve_shortest:
  assumes wf: "wfMaze m" and sb: "start m \<in> box m"
  shows "if (\<exists>qs. validPath m qs)
         then (\<exists>ps. Solve m = Some (ps, True) \<and> validPath m ps \<and>
                 (\<forall>qs. validPath m qs \<longrightarrow> length ps \<le> length qs) \<and>
                 (start m = endp m \<longrightarrow> length ps = 1))
         else Solve m = Some ([], False)"
proof -
  from solveLoop_final[OF wf sinv_init[of m]] obtain res where
    res: "solveLoop m [start m] 0 {start m} Map.empty = Some res" and fin: "sfinal m res" by blast
  obtain found q h v par where r: "res = (found, q, h, v, par)" by (cases res)
  have inb: "0 \<le> Y (start m) \<and> Y (start m) < height m \<and> 0 \<le> X (start m) \<and> X (start m) < width m"
    using sb by (simp add: box_def)
  show ?thesis
  proof (cases found)
    case True
    with fin r obtain dep where h: "0 < h" "h - 1 < length q" "q ! (h - 1) = endp m"
      and inv: "sinv m q (h - 1) v par dep" by (auto simp add: sfinal_def)
    let ?ps = "rev (chain par (endp m) (dep (endp m)))"
    note f = Solve_found[OF inv h(2,3)]
    have s: "Solve m = Some (?ps, True)"
      using inb res r True f(1) by (simp add: Solve_def reverseLoop_rev)
    have len: "length ?ps = Suc (dep (endp m))" by (simp add: length_chain)
    have min: "\<forall>qs. validPath m qs \<longrightarrow> length ?ps \<le> length qs"
      using f(3) len by simp
    have one: "start m = endp m \<longrightarrow> length ?ps = 1"
    proof
      assume "start m = endp m"
      then have "validPath m [start m]" by (simp add: validPath_def)
      with min have "length ?ps \<le> 1" by fastforce
      with len show "length ?ps = 1" by simp
    qed
    from s f(2) min one show ?thesis by auto
  next
    case False
    with fin r obtain dep where h: "h = length q" and inv: "sinv m q h v par dep"
      by (auto simp add: sfinal_def)
    have "\<not> validPath m qs" for qs using Solve_not_found inv h by blast
    moreover have "Solve m = Some ([], False)"
      using inb res r False by (simp add: Solve_def)
    ultimately show ?thesis by simp
  qed
qed

lemma wf_corridorMaze: "wfMaze corridorMaze \<and> start corridorMaze \<in> box corridorMaze"
  by (simp add: wfMaze_def corridorMaze_def plainMaze_def box_def)

lemma validPath_corridorMaze:
  "validPath corridorMaze [\<lparr>X = 1, Y = 1\<rparr>, \<lparr>X = 2, Y = 1\<rparr>, \<lparr>X = 3, Y = 1\<rparr>]"
  by (simp add: validPath_def adjacent_def walkable_def box_def getCell_def inGrid_def
      corridorMaze_def plainMaze_def)

theorem Solve_shortest_witness:
  "\<exists>ps. Solve corridorMaze = Some (ps, True) \<and> validPath corridorMaze ps \<and> length ps \<le> 3"
proof -
  have "\<exists>qs. validPath corridorMaze qs" using validPath_corridorMaze by blast
  with Solve_shortest[of corridorMaze] wf_corridorMaze
  obtain ps where ps: "Solve corridorMaze = Some (ps, True)" "validPath corridorMaze ps"
    "\<forall>qs. validPath corridorMaze qs \<longrightarrow> length ps \<le> length qs" by auto
  from ps(3) validPath_corridorMaze have "length ps \<le> 3" by fastforce
  with ps(1,2) show ?thesis by blast
qed

section \<open>The farthest-point search\<close>












section \<open>What generation preserves\<close>































section \<open>Generation returns\<close>










section \<open>The random door\<close>























end
